theory Spec2Isabelle
  imports Main "HOL-Library.Sublist"
begin

section \<open>JavaScript string primitives used by \<^verbatim>\<open>src/main.ts\<close>\<close>

text \<open>
  A JavaScript string is modelled as a \<^typ>\<open>string\<close>: one \<^typ>\<open>char\<close> per code unit (code
  units below 256). \<^verbatim>\<open>indexOf\<close> and \<^verbatim>\<open>lastIndexOf\<close> return \<open>-1\<close> when nothing is found;
  here that is \<^const>\<open>None\<close>, and \<open>js_index\<close> gives the number JavaScript computes with.
\<close>

definition startsWith :: "string \<Rightarrow> string \<Rightarrow> bool" where
  "startsWith s p = (take (length p) s = p)"

fun indexOf :: "string \<Rightarrow> string \<Rightarrow> nat option" where
  "indexOf [] t = (if t = [] then Some 0 else None)"
| "indexOf (c # cs) t =
     (if startsWith (c # cs) t then Some 0 else map_option Suc (indexOf cs t))"

fun lastIndexOf :: "string \<Rightarrow> string \<Rightarrow> nat option" where
  "lastIndexOf [] t = (if t = [] then Some 0 else None)"
| "lastIndexOf (c # cs) t =
     (case lastIndexOf cs t of
        Some i \<Rightarrow> Some (Suc i)
      | None \<Rightarrow> if startsWith (c # cs) t then Some 0 else None)"

definition js_index :: "nat option \<Rightarrow> int" where
  "js_index r = (case r of None \<Rightarrow> - 1 | Some i \<Rightarrow> int i)"

text \<open>\<^verbatim>\<open>s.substring(a, b)\<close>: both indices are clamped to \<open>0..length\<close> and swapped when
  \<open>a > b\<close>.\<close>

definition substring :: "string \<Rightarrow> int \<Rightarrow> int \<Rightarrow> string" where
  "substring s a b =
     (let n = int (length s);
          a' = min (max a 0) n;
          b' = min (max b 0) n;
          lo = nat (min a' b');
          hi = nat (max a' b')
      in take (hi - lo) (drop lo s))"

text \<open>\<^verbatim>\<open>s.slice(1)\<close>, the only use of \<^verbatim>\<open>slice\<close> in the source.\<close>

definition slice_from :: "string \<Rightarrow> nat \<Rightarrow> string" where
  "slice_from s k = drop k s"

text \<open>The white space and line terminators of ECMAScript that fit a \<^typ>\<open>char\<close>: TAB, LF,
  VT, FF, CR, SP and NBSP.\<close>

definition is_js_space :: "char \<Rightarrow> bool" where
  "is_js_space c =
     (c = CHR 0x09 \<or> c = CHR 0x0A \<or> c = CHR 0x0B \<or> c = CHR 0x0C \<or> c = CHR 0x0D
      \<or> c = CHR 0x20 \<or> c = CHR 0xA0)"

definition trim :: "string \<Rightarrow> string" where
  "trim s = rev (dropWhile is_js_space (rev (dropWhile is_js_space s)))"

text \<open>\<^verbatim>\<open>s.split(sep)\<close> for a separator of one character: the result is never empty, and
  \<^verbatim>\<open>"".split(sep)\<close> is \<^verbatim>\<open>[""]\<close>.\<close>

fun split_on :: "char \<Rightarrow> string \<Rightarrow> string list" where
  "split_on sep [] = [[]]"
| "split_on sep (c # cs) =
     (if c = sep then [] # split_on sep cs
      else (case split_on sep cs of
              [] \<Rightarrow> [[c]]
            | l # ls \<Rightarrow> (c # l) # ls))"

text \<open>\<^verbatim>\<open>xs.pop()\<close> read for its value: the last element, \<^verbatim>\<open>undefined\<close> on an empty
  array.\<close>

definition pop :: "'a list \<Rightarrow> 'a option" where
  "pop xs = (if xs = [] then None else Some (last xs))"

text \<open>\<^verbatim>\<open>s.padStart(n, "0")\<close> with a fill string of one character.\<close>

definition padStart :: "nat \<Rightarrow> char \<Rightarrow> string \<Rightarrow> string" where
  "padStart n c s = replicate (n - length s) c @ s"

text \<open>\<^verbatim>\<open>String(n)\<close> and \<^verbatim>\<open>n.toString()\<close> of an integer: its decimal digits, with a
  minus sign when it is negative.\<close>

definition digit_char :: "nat \<Rightarrow> char" where
  "digit_char d = ''0123456789'' ! d"

fun nat_toString :: "nat \<Rightarrow> string" where
  "nat_toString n =
     (if n < 10 then [digit_char n] else nat_toString (n div 10) @ [digit_char (n mod 10)])"

declare nat_toString.simps [simp del]

definition int_toString :: "int \<Rightarrow> string" where
  "int_toString i = (if i < 0 then CHR ''-'' # nat_toString (nat (- i)) else nat_toString (nat i))"

text \<open>
  \<^verbatim>\<open>s.replace(pattern, replacement)\<close> with a string pattern replaces the first occurrence
  only, and the replacement is a template: \<^verbatim>\<open>$$\<close> stands for a dollar sign, \<^verbatim>\<open>$&\<close> for the
  matched text, \<^verbatim>\<open>$`\<close> for the text before the match and \<^verbatim>\<open>$'\<close> for the text after it
  (ECMAScript's GetSubstitution; with a string pattern there is no capture group, so
  \<^verbatim>\<open>$1\<close> and \<^verbatim>\<open>$<\<close> stay as they are).
\<close>

fun getSubstitution :: "string \<Rightarrow> string \<Rightarrow> string \<Rightarrow> string \<Rightarrow> string" where
  "getSubstitution matched preceding following [] = []"
| "getSubstitution matched preceding following [c] = [c]"
| "getSubstitution matched preceding following (c # d # r) =
     (if c = CHR ''$'' \<and> d = CHR ''$'' then CHR ''$'' # getSubstitution matched preceding following r
      else if c = CHR ''$'' \<and> d = CHR ''&'' then matched @ getSubstitution matched preceding following r
      else if c = CHR ''$'' \<and> d = CHR 0x60 then preceding @ getSubstitution matched preceding following r
      else if c = CHR ''$'' \<and> d = CHR 0x27 then following @ getSubstitution matched preceding following r
      else c # getSubstitution matched preceding following (d # r))"

definition replace :: "string \<Rightarrow> string \<Rightarrow> string \<Rightarrow> string" where
  "replace s pat rep =
     (case indexOf s pat of
        None \<Rightarrow> s
      | Some i \<Rightarrow>
          take i s
          @ getSubstitution pat (take i s) (drop (i + length pat) s) rep
          @ drop (i + length pat) s)"

section \<open>The plugin's data\<close>

text \<open>A JavaScript \<^verbatim>\<open>Error\<close>, by its message.\<close>

datatype error = Error string

record js_file =
  file_name :: string
  file_type :: string
  file_bytes :: "nat list"

section \<open>\<^verbatim>\<open>getFileType\<close>\<close>

definition getFileType :: "js_file \<Rightarrow> bool \<Rightarrow> bool \<Rightarrow> bool \<Rightarrow> string option" where
  "getFileType f uploadVideo uploadAudio uploadPdf =
     (let type = file_type f in
      if startsWith type ''video/'' \<and> uploadVideo then Some ''video''
      else if startsWith type ''audio/'' \<and> uploadAudio then Some ''audio''
      else if type = ''application/pdf'' \<and> uploadPdf then Some ''pdf''
      else if startsWith type ''image/'' then Some ''image''
      else None)"

section \<open>\<^verbatim>\<open>wrapFileDependingOnType\<close>\<close>

definition wrapFileDependingOnType :: "string \<Rightarrow> string \<Rightarrow> string \<Rightarrow> error + string" where
  \<open>wrapFileDependingOnType location type localBase =
     (let srcPrefix = (if localBase \<noteq> [] then ''file://'' @ localBase @ ''/'' else []) in
      if type = ''image'' then Inr (''![image]('' @ location @ '')'')
      else if type = ''video'' then
        Inr (''<video src="'' @ srcPrefix @ location @ ''" controls />'')
      else if type = ''audio'' then
        Inr (''<audio src="'' @ srcPrefix @ location @ ''" controls />'')
      else if type = ''pdf'' then
        Inr (''<iframe frameborder="0" border="0" width="100%" height="800" src="''
             @ location @ ''"></iframe>'')
      else Inl (Error ''Unknown file type''))\<close>

section \<open>Settings, frontmatter and dates\<close>

record settings =
  accessKey :: string
  secretKey :: string
  region :: string
  bucket :: string
  folder :: string
  imageUrlPath :: string
  uploadOnDrag :: bool
  localUpload :: bool
  localUploadFolder :: string
  useCustomEndpoint :: bool
  customEndpoint :: string
  forcePathStyle :: bool
  useCustomImageUrl :: bool
  customImageUrl :: string
  uploadVideo :: bool
  uploadAudio :: bool
  uploadPdf :: bool
  bypassCors :: bool

text \<open>\<^verbatim>\<open>DEFAULT_SETTINGS\<close> of the source.\<close>

definition DEFAULT_SETTINGS :: settings where
  "DEFAULT_SETTINGS =
     \<lparr>accessKey = [], secretKey = [], region = [], bucket = [], folder = [],
      imageUrlPath = [], uploadOnDrag = True, localUpload = False, localUploadFolder = [],
      useCustomEndpoint = False, customEndpoint = [], forcePathStyle = False,
      useCustomImageUrl = False, customImageUrl = [], uploadVideo = False,
      uploadAudio = False, uploadPdf = False, bypassCors = False\<rparr>"

text \<open>A value of the frontmatter, which the application parses from YAML: in the source it
  has the type \<^verbatim>\<open>any\<close>. Lists and maps are \<open>JObject\<close>, and a number is kept as an integer
  (zero for the numbers that are falsy); what the source asks of a value is whether it is a
  string and whether it is truthy.\<close>

datatype js_value = JString string | JNumber int | JBoolean bool | JNull | JObject

fun truthy :: "js_value \<Rightarrow> bool" where
  "truthy (JString s) = (s \<noteq> [])"
| "truthy (JNumber n) = (n \<noteq> 0)"
| "truthy (JBoolean b) = b"
| "truthy JNull = False"
| "truthy JObject = True"

text \<open>The frontmatter of the active note: every key is optional (\<^verbatim>\<open>undefined\<close> is
  \<^const>\<open>None\<close>).\<close>

record frontmatter =
  fm_localUpload :: "js_value option"
  fm_uploadVideo :: "js_value option"
  fm_uploadAudio :: "js_value option"
  fm_uploadPdf :: "js_value option"
  fm_uploadOnDrag :: "js_value option"
  fm_folder :: "js_value option"
  fm_localUploadFolder :: "js_value option"

text \<open>A \<^verbatim>\<open>Date\<close>, by what the source reads of it: \<^verbatim>\<open>getFullYear()\<close>, \<^verbatim>\<open>getMonth()\<close>
  (January is 0) and \<^verbatim>\<open>getDate()\<close> (the day of the month, from 1). The handler passes
  \<^verbatim>\<open>new Date()\<close>, which is never an invalid date.\<close>

record js_date =
  getFullYear :: int
  getMonth :: nat
  getDate :: nat

definition valid_date :: "js_date \<Rightarrow> bool" where
  "valid_date d = (getMonth d < 12 \<and> 1 \<le> getDate d \<and> getDate d \<le> 31)"

text \<open>\<^verbatim>\<open>a || b\<close> where \<open>a\<close> is a value of the frontmatter or \<^verbatim>\<open>undefined\<close> and \<open>b\<close> a
  string: \<open>a\<close> when it is truthy, \<open>b\<close> otherwise.\<close>

definition js_or :: "js_value option \<Rightarrow> string \<Rightarrow> js_value" where
  "js_or a b = (case a of None \<Rightarrow> JString b | Some v \<Rightarrow> if truthy v then v else JString b)"

section \<open>\<^verbatim>\<open>getFolderPath\<close>\<close>

text \<open>Only a string has the method \<^verbatim>\<open>replace\<close>: when the frontmatter's override is truthy
  and not a string, the call \<^verbatim>\<open>baseFolder.replace(...)\<close> throws a \<^verbatim>\<open>TypeError\<close>.\<close>

definition getFolderPath ::
  "settings \<Rightarrow> frontmatter option \<Rightarrow> bool \<Rightarrow> js_date \<Rightarrow> error + string" where
  "getFolderPath st fm localUpload' currentDate =
     (let baseFolder = (if localUpload' then localUploadFolder st else folder st);
          baseFolder = trim baseFolder;
          baseFolder =
            (case fm of
               None \<Rightarrow> JString baseFolder
             | Some m \<Rightarrow>
                 js_or (if localUpload' then fm_localUploadFolder m else fm_folder m) baseFolder)
      in case baseFolder of
           JString template \<Rightarrow>
             Inr (replace
                    (replace
                       (replace template ''${year}'' (int_toString (getFullYear currentDate)))
                       ''${month}'' (padStart 2 (CHR ''0'') (nat_toString (getMonth currentDate + 1))))
                    ''${day}'' (padStart 2 (CHR ''0'') (nat_toString (getDate currentDate))))
         | _ \<Rightarrow> Inl (Error ''baseFolder.replace is not a function''))"

section \<open>\<^verbatim>\<open>onload\<close>: the API endpoint and the public URL prefix\<close>

definition apiEndpoint :: "settings \<Rightarrow> string" where
  "apiEndpoint st =
     (if useCustomEndpoint st then customEndpoint st
      else ''https://s3.'' @ region st @ ''.amazonaws.com/'')"

definition onload :: "settings \<Rightarrow> settings" where
  "onload st =
     st\<lparr>imageUrlPath :=
          (if useCustomImageUrl st then customImageUrl st
           else if forcePathStyle st then apiEndpoint st @ bucket st @ ''/''
           else replace (apiEndpoint st) ''://'' (''://'' @ bucket st @ ''.''))\<rparr>"

section \<open>The storage name and the placeholder of \<^verbatim>\<open>pasteHandler\<close>\<close>

text \<open>\<^verbatim>\<open>`${digest}.${file.name.split(".").pop()}`\<close>; the digest is the hexadecimal MD5
  digest Node's \<^verbatim>\<open>crypto\<close> computes of the file's bytes, a parameter here.\<close>

definition newFileName :: "string \<Rightarrow> string \<Rightarrow> string" where
  "newFileName digest name =
     digest @ ''.''
     @ (case pop (split_on (CHR ''.'') name) of None \<Rightarrow> ''undefined'' | Some ext \<Rightarrow> ext)"

definition placeholder :: "string \<Rightarrow> string" where
  "placeholder fileName = ''![uploading...]('' @ fileName @ '')'' @ [CHR 0x0A]"

definition storage_key :: "string \<Rightarrow> string \<Rightarrow> string" where
  "storage_key folder' fileName = (if folder' \<noteq> [] then folder' @ ''/'' @ fileName else fileName)"

section \<open>The editor\<close>

text \<open>
  Modelled from the spec: the editor collaborator (\<^verbatim>\<open>Editor\<close> of the host application),
  whose implementation is not part of the plugin. The spec gives its interface:
  \<^verbatim>\<open>getValue()\<close>, \<^verbatim>\<open>replaceSelection(text)\<close>, \<^verbatim>\<open>setCursor(pos)\<close> and
  \<^verbatim>\<open>replaceRange(text, from, to)\<close>, with positions \<^verbatim>\<open>{line, ch}\<close>. The model holds the text
  of the buffer, whose lines are separated by line feeds, and the selection as two offsets
  into it. A position past the end of its line is clipped to the end of the line, a line past
  the last to the end of the text.
\<close>

record editor =
  buffer :: string
  sel_from :: nat
  sel_to :: nat

type_synonym EditorPosition = "nat \<times> nat"

fun join_lines :: "string list \<Rightarrow> string" where
  "join_lines [] = []"
| "join_lines [l] = l"
| "join_lines (l # m # ls) = l @ CHR 0x0A # join_lines (m # ls)"

definition posToOffset :: "string \<Rightarrow> EditorPosition \<Rightarrow> nat" where
  "posToOffset doc pos =
     (let ls = split_on (CHR 0x0A) doc; line = fst pos; ch = snd pos
      in if line < length ls then length (join_lines (take line ls @ [take ch (ls ! line)]))
         else length doc)"

definition getValue :: "editor \<Rightarrow> string" where
  "getValue ed = buffer ed"

definition replaceSelection :: "string \<Rightarrow> editor \<Rightarrow> editor" where
  "replaceSelection t ed =
     ed\<lparr>buffer := take (sel_from ed) (buffer ed) @ t @ drop (sel_to ed) (buffer ed),
        sel_from := sel_from ed + length t,
        sel_to := sel_from ed + length t\<rparr>"

definition setCursor :: "EditorPosition \<Rightarrow> editor \<Rightarrow> editor" where
  "setCursor pos ed =
     ed\<lparr>sel_from := posToOffset (buffer ed) pos, sel_to := posToOffset (buffer ed) pos\<rparr>"

text \<open>An offset after a change of the range \<open>a..b\<close> into a text of length \<open>n\<close>: offsets
  before the range stay, offsets in it move to its start, offsets after it shift.\<close>

definition map_offset :: "nat \<Rightarrow> nat \<Rightarrow> nat \<Rightarrow> nat \<Rightarrow> nat" where
  "map_offset a b n p = (if p < b then min p a else p - b + a + n)"

definition replaceRange :: "string \<Rightarrow> EditorPosition \<Rightarrow> EditorPosition \<Rightarrow> editor \<Rightarrow> editor" where
  "replaceRange t from to ed =
     (let a = posToOffset (buffer ed) from; b = posToOffset (buffer ed) to
      in ed\<lparr>buffer := take a (buffer ed) @ t @ drop b (buffer ed),
            sel_from := map_offset a b (length t) (sel_from ed),
            sel_to := map_offset a b (length t) (sel_to ed)\<rparr>)"

section \<open>\<^verbatim>\<open>replaceText\<close>\<close>

text \<open>The loop over the lines, from line \<open>i\<close> on: the first line in which the target occurs,
  with the index of the first occurrence in it.\<close>

fun find_line :: "string list \<Rightarrow> string \<Rightarrow> nat \<Rightarrow> EditorPosition option" where
  "find_line [] target i = None"
| "find_line (l # ls) target i =
     (case indexOf l target of
        Some ch \<Rightarrow> Some (i, ch)
      | None \<Rightarrow> find_line ls target (Suc i))"

definition replaceText :: "editor \<Rightarrow> string \<Rightarrow> string \<Rightarrow> editor" where
  "replaceText ed target replacement =
     (let target = trim target;
          lines = split_on (CHR 0x0A) (getValue ed)
      in case find_line lines target 0 of
           None \<Rightarrow> ed
         | Some (i, ch) \<Rightarrow>
             (let from = (i, ch); to = (i, ch + length target)
              in replaceRange replacement from to (setCursor from ed)))"

section \<open>\<^verbatim>\<open>uploadFile\<close>\<close>

text \<open>
  Modelled from the spec: the remote storage collaborator (\<^verbatim>\<open>s3.send\<close> of a
  \<^verbatim>\<open>PutObjectCommand\<close>) and the local file-system collaborator (\<^verbatim>\<open>adapter.exists\<close>,
  \<^verbatim>\<open>vault.createFolder\<close>, \<^verbatim>\<open>adapter.writeBinary\<close>), whose implementations are not part of
  the plugin. Each is a parameter: a function of the state \<open>'w\<close> of the world outside the
  plugin, which fails with an \<^typ>\<open>error\<close> or succeeds, and leaves a new state. Nothing is
  assumed of them. \<^verbatim>\<open>uploadFile\<close> returns the calls it made, in order, beside its result.
\<close>

record put_object =
  Bucket :: string
  Key :: string
  Body :: "nat list"
  ContentType :: string

record 'w collaborators =
  s3_send :: "put_object \<Rightarrow> 'w \<Rightarrow> (error + unit) \<times> 'w"
  adapter_exists :: "string \<Rightarrow> 'w \<Rightarrow> (error + bool) \<times> 'w"
  vault_createFolder :: "string \<Rightarrow> 'w \<Rightarrow> (error + unit) \<times> 'w"
  adapter_writeBinary :: "string \<Rightarrow> nat list \<Rightarrow> 'w \<Rightarrow> (error + unit) \<times> 'w"

datatype call =
  S3Send put_object
| Exists string
| CreateFolder string
| WriteBinary string "nat list"

text \<open>The end of the local branch: \<^verbatim>\<open>writeBinary\<close>, then the key without a leading
  slash.\<close>

definition write_local ::
  "'w collaborators \<Rightarrow> string \<Rightarrow> nat list \<Rightarrow> call list \<Rightarrow> 'w \<Rightarrow> call list \<times> (error + string) \<times> 'w" where
  "write_local env key buf calls w =
     (case adapter_writeBinary env key buf w of
        (Inl e, w') \<Rightarrow> (calls @ [WriteBinary key buf], Inl e, w')
      | (Inr _, w') \<Rightarrow>
          (calls @ [WriteBinary key buf],
           Inr (if startsWith key ''/'' then slice_from key 1 else key), w'))"

definition uploadFile ::
  "'w collaborators \<Rightarrow> settings \<Rightarrow> bool \<Rightarrow> js_file \<Rightarrow> string \<Rightarrow> nat list \<Rightarrow> 'w
     \<Rightarrow> call list \<times> (error + string) \<times> 'w" where
  "uploadFile env st localUpload' f key buf w =
     (if \<not> localUpload' then
        (let cmd = \<lparr>Bucket = bucket st, Key = key, Body = buf, ContentType = file_type f\<rparr>
         in case s3_send env cmd w of
              (Inl e, w') \<Rightarrow> ([S3Send cmd], Inl e, w')
            | (Inr _, w') \<Rightarrow> ([S3Send cmd], Inr (imageUrlPath st @ key), w'))
      else
        (let folderPath = substring key 0 (js_index (lastIndexOf key ''/''))
         in case adapter_exists env folderPath w of
              (Inl e, w') \<Rightarrow> ([Exists folderPath], Inl e, w')
            | (Inr found, w') \<Rightarrow>
                if \<not> found \<and> folderPath \<noteq> [] then
                  (case vault_createFolder env folderPath w' of
                     (Inl e, w'') \<Rightarrow> ([Exists folderPath, CreateFolder folderPath], Inl e, w'')
                   | (Inr _, w'') \<Rightarrow>
                       write_local env key buf [Exists folderPath, CreateFolder folderPath] w'')
                else write_local env key buf [Exists folderPath] w'))"

section \<open>\<^verbatim>\<open>pasteHandler\<close>\<close>

text \<open>
  The handler starts one asynchronous pipeline per file and waits for all of them with
  \<^verbatim>\<open>Promise.all\<close>. A pipeline runs in steps between its \<^verbatim>\<open>await\<close>s; JavaScript runs one
  step at a time, in the order in which the awaited promises settle. The model is a state
  of the batch and a step function over the events that resume a pipeline:
  \<^item> \<open>BytesRead i d\<close>: \<^verbatim>\<open>file.arrayBuffer()\<close> of file \<open>i\<close> resolved, and \<^verbatim>\<open>new Date()\<close> read
    in that step is \<open>d\<close>;
  \<^item> \<open>BytesFailed i e\<close>: \<^verbatim>\<open>file.arrayBuffer()\<close> of file \<open>i\<close> rejected with \<open>e\<close>;
  \<^item> \<open>UploadSettled i r\<close>: the promise of \<^verbatim>\<open>uploadFile\<close> for file \<open>i\<close> settled, rejected with
    an error (\<open>Inl\<close>) or resolved with a location (\<open>Inr\<close>).
  An event for a pipeline that does not wait for it changes nothing: a promise settles
  once. A pipeline is rejected by what is thrown outside its \<^verbatim>\<open>try\<close> block: a rejected
  \<^verbatim>\<open>file.arrayBuffer()\<close>, and \<^verbatim>\<open>getFolderPath\<close> throwing after the placeholder has been
  inserted.
\<close>

record paste_event =
  ev_type :: string
  defaultPrevented :: bool
  clipboard_files :: "js_file list"
  transfer_files :: "js_file list"

text \<open>What the handler reads of the plugin and of the application: the settings, the name
  of the active note (\<^const>\<open>None\<close> when there is none), its frontmatter, and the hexadecimal
  MD5 digest of Node's \<^verbatim>\<open>crypto\<close>.\<close>

record plugin =
  the_settings :: settings
  active_file :: "string option"
  the_frontmatter :: "frontmatter option"
  md5_hex :: "nat list \<Rightarrow> string"

datatype task =
  Skipped
| Reading js_file string
| Uploading string string string
| Done
| Rejected error

datatype batch_status = Pending | Resolved | RejectedBatch error

record batch =
  b_editor :: editor
  b_tasks :: "task list"
  b_notices :: "string list"
  b_status :: batch_status
  b_localUpload :: bool
  b_prevented :: bool

datatype event =
  BytesRead nat js_date
| BytesFailed nat error
| UploadSettled nat "error + string"

text \<open>\<^verbatim>\<open>typeof fm?.key !== "undefined" ? fm.key : setting\<close>, read for its truth value, as
  every use in the source does.\<close>

definition overlay :: "frontmatter option \<Rightarrow> (frontmatter \<Rightarrow> js_value option) \<Rightarrow> bool \<Rightarrow> bool" where
  "overlay fm key setting =
     (case fm of
        None \<Rightarrow> setting
      | Some m \<Rightarrow> (case key m of None \<Rightarrow> setting | Some v \<Rightarrow> truthy v))"

definition settled :: "task \<Rightarrow> bool" where
  "settled t = (t = Skipped \<or> t = Done)"

fun first_rejection :: "task list \<Rightarrow> error option" where
  "first_rejection [] = None"
| "first_rejection (Rejected e # ts) = Some e"
| "first_rejection (t # ts) = first_rejection ts"

text \<open>\<^verbatim>\<open>Promise.all(uploads).then(() => new Notice("All files processed."))\<close>: while the
  batch is pending, a rejected pipeline rejects it, and when every pipeline has resolved the
  batch resolves and the notice is shown.\<close>

definition promise_all :: "batch \<Rightarrow> batch" where
  "promise_all s =
     (if b_status s \<noteq> Pending then s
      else case first_rejection (b_tasks s) of
             Some e \<Rightarrow> s\<lparr>b_status := RejectedBatch e\<rparr>
           | None \<Rightarrow>
               if list_all settled (b_tasks s)
               then s\<lparr>b_status := Resolved, b_notices := b_notices s @ [''All files processed.'']\<rparr>
               else s)"

text \<open>The pipeline of a file up to its first \<^verbatim>\<open>await\<close>.\<close>

definition start_upload :: "bool \<Rightarrow> bool \<Rightarrow> bool \<Rightarrow> js_file \<Rightarrow> task" where
  "start_upload uploadVideo' uploadAudio' uploadPdf' f =
     (case getFileType f uploadVideo' uploadAudio' uploadPdf' of
        None \<Rightarrow> Skipped
      | Some thisType \<Rightarrow> Reading f thisType)"

definition pasteHandler :: "plugin \<Rightarrow> paste_event \<Rightarrow> editor \<Rightarrow> batch option" where
  "pasteHandler pl ev ed =
     (if defaultPrevented ev then None
      else case active_file pl of
        None \<Rightarrow> None
      | Some noteName \<Rightarrow>
          if noteName = [] then None
          else
            (let fm = the_frontmatter pl;
                 st = the_settings pl;
                 localUpload' = overlay fm fm_localUpload (localUpload st);
                 uploadVideo' = overlay fm fm_uploadVideo (uploadVideo st);
                 uploadAudio' = overlay fm fm_uploadAudio (uploadAudio st);
                 uploadPdf' = overlay fm fm_uploadPdf (uploadPdf st);
                 uploadOnDrag' = overlay fm fm_uploadOnDrag (uploadOnDrag st)
             in if ev_type ev = ''drop'' \<and> \<not> uploadOnDrag' then None
                else
                  (let files =
                     (if ev_type ev = ''paste'' then clipboard_files ev
                      else if ev_type ev = ''drop'' then transfer_files ev
                      else [])
                   in if files \<noteq> [] then
                        Some (promise_all
                          \<lparr>b_editor = ed,
                           b_tasks = map (start_upload uploadVideo' uploadAudio' uploadPdf') files,
                           b_notices = [],
                           b_status = Pending,
                           b_localUpload = localUpload',
                           b_prevented = True\<rparr>)
                      else None)))"

text \<open>The text that replaces the placeholder when the upload has settled: the embed, or
  the error line of the \<^verbatim>\<open>catch\<close> block (which also catches what the renderer throws).\<close>

definition reconciliation :: "plugin \<Rightarrow> bool \<Rightarrow> string \<Rightarrow> error + string \<Rightarrow> string" where
  "reconciliation pl localUpload' thisType r =
     (case r of
        Inl (Error message) \<Rightarrow> ''Error uploading file: '' @ message @ [CHR 0x0A]
      | Inr url \<Rightarrow>
          (case wrapFileDependingOnType url thisType
                  (if localUpload' then localUploadFolder (the_settings pl) else [])
           of Inr imgMarkdownText \<Rightarrow> imgMarkdownText
            | Inl (Error message) \<Rightarrow> ''Error uploading file: '' @ message @ [CHR 0x0A]))"

definition resume :: "plugin \<Rightarrow> event \<Rightarrow> batch \<Rightarrow> batch" where
  "resume pl e s =
     (case e of
        BytesRead i d \<Rightarrow>
          (if i < length (b_tasks s) then
             (case b_tasks s ! i of
                Reading f thisType \<Rightarrow>
                  (let buf = file_bytes f;
                       digest = md5_hex pl buf;
                       fileName = newFileName digest (file_name f);
                       ph = placeholder fileName;
                       ed = replaceSelection ph (b_editor s)
                   in case getFolderPath (the_settings pl) (the_frontmatter pl)
                             (b_localUpload s) d
                      of Inl err \<Rightarrow>
                           s\<lparr>b_editor := ed, b_tasks := (b_tasks s)[i := Rejected err]\<rparr>
                       | Inr folder' \<Rightarrow>
                           (let key = storage_key folder' fileName
                            in s\<lparr>b_editor := ed,
                                 b_tasks := (b_tasks s)[i := Uploading ph thisType key]\<rparr>))
              | _ \<Rightarrow> s)
           else s)
      | BytesFailed i err \<Rightarrow>
          (if i < length (b_tasks s) then
             (case b_tasks s ! i of
                Reading f thisType \<Rightarrow> s\<lparr>b_tasks := (b_tasks s)[i := Rejected err]\<rparr>
              | _ \<Rightarrow> s)
           else s)
      | UploadSettled i r \<Rightarrow>
          (if i < length (b_tasks s) then
             (case b_tasks s ! i of
                Uploading ph thisType key \<Rightarrow>
                  s\<lparr>b_editor :=
                       replaceText (b_editor s) ph
                         (reconciliation pl (b_localUpload s) thisType r),
                    b_tasks := (b_tasks s)[i := Done]\<rparr>
              | _ \<Rightarrow> s)
           else s))"

definition step :: "plugin \<Rightarrow> batch \<Rightarrow> event \<Rightarrow> batch" where
  "step pl s e = promise_all (resume pl e s)"

definition run :: "plugin \<Rightarrow> event list \<Rightarrow> batch \<Rightarrow> batch" where
  "run pl evs s = foldl (step pl) s evs"

fun is_read_failure :: "event \<Rightarrow> bool" where
  "is_read_failure (BytesFailed i e) = True"
| "is_read_failure _ = False"

fun is_rejected :: "task \<Rightarrow> bool" where
  "is_rejected (Rejected e) = True"
| "is_rejected _ = False"

section \<open>What the claims speak of\<close>

text \<open>\<open>t\<close> occurs in \<open>s\<close> between \<open>pre\<close> and \<open>post\<close>, and nowhere further left.\<close>

definition first_occurrence :: "'a list \<Rightarrow> 'a list \<Rightarrow> 'a list \<Rightarrow> 'a list \<Rightarrow> bool" where
  "first_occurrence s pre t post \<longleftrightarrow>
     s = pre @ t @ post \<and> (\<forall>pre' post'. s = pre' @ t @ post' \<longrightarrow> length pre \<le> length pre')"

text \<open>\<open>r\<close> is \<open>s\<close> with the first occurrence of \<open>tok\<close> replaced by \<open>val\<close>, or \<open>s\<close> itself when
  \<open>tok\<close> does not occur in it.\<close>

definition first_replaced :: "'a list \<Rightarrow> 'a list \<Rightarrow> 'a list \<Rightarrow> 'a list \<Rightarrow> bool" where
  "first_replaced s tok val r \<longleftrightarrow>
     (\<exists>pre post. first_occurrence s pre tok post \<and> r = pre @ val @ post)
     \<or> (\<not> sublist tok s \<and> r = s)"


text \<open>The decimal digits a number is written with: four for a year, two for a month or a
  day.\<close>

definition four_digits :: "nat \<Rightarrow> string" where
  "four_digits n =
     [digit_char (n div 1000), digit_char (n div 100 mod 10), digit_char (n div 10 mod 10),
      digit_char (n mod 10)]"

definition two_digits :: "nat \<Rightarrow> string" where
  "two_digits n = [digit_char (n div 10), digit_char (n mod 10)]"

text \<open>The template \<^const>\<open>getFolderPath\<close> substitutes in: the frontmatter's override for the
  upload mode when it is a non-empty string, the trimmed global template when the override is
  absent or falsy; there is none when the override is truthy and not a string.\<close>

definition effective_template :: "settings \<Rightarrow> frontmatter option \<Rightarrow> bool \<Rightarrow> string option" where
  "effective_template st fm localUpload' =
     (let override =
        (case fm of
           None \<Rightarrow> None
         | Some m \<Rightarrow> if localUpload' then fm_localUploadFolder m else fm_folder m);
          global = trim (if localUpload' then localUploadFolder st else folder st)
      in case override of
           None \<Rightarrow> Some global
         | Some (JString s) \<Rightarrow> Some (if s \<noteq> [] then s else global)
         | Some v \<Rightarrow> if truthy v then None else Some global)"





text \<open>The state of the batch as long as nothing is thrown outside a \<^verbatim>\<open>try\<close> block: no
  pipeline is rejected, and the batch has resolved, with its one notice, exactly when every
  pipeline has settled.\<close>

definition contained :: "batch \<Rightarrow> bool" where
  "contained s \<longleftrightarrow>
     (\<forall>t \<in> set (b_tasks s). \<not> is_rejected t)
     \<and> (if list_all settled (b_tasks s)
        then b_status s = Resolved \<and> b_notices s = [''All files processed.'']
        else b_status s = Pending \<and> b_notices s = [])"

text \<open>The events that deliver what \<open>n\<close> pipelines wait for: the bytes of every file, read
  on the date \<open>d\<close>, then the outcome \<open>r i\<close> of the upload of every file \<open>i\<close>.\<close>

definition delivery :: "js_date \<Rightarrow> (nat \<Rightarrow> error + string) \<Rightarrow> nat \<Rightarrow> event list" where
  "delivery d r n = map (\<lambda>i. BytesRead i d) [0..<n] @ map (\<lambda>i. UploadSettled i (r i)) [0..<n]"

fun is_reading :: "task \<Rightarrow> bool" where
  "is_reading (Reading f thisType) = True"
| "is_reading _ = False"

fun is_uploading :: "task \<Rightarrow> bool" where
  "is_uploading (Uploading ph thisType key) = True"
| "is_uploading _ = False"

section \<open>Example data\<close>

definition no_frontmatter_keys :: frontmatter where
  "no_frontmatter_keys =
     \<lparr>fm_localUpload = None, fm_uploadVideo = None, fm_uploadAudio = None, fm_uploadPdf = None,
      fm_uploadOnDrag = None, fm_folder = None, fm_localUploadFolder = None\<rparr>"

definition example_date :: js_date where
  "example_date = \<lparr>getFullYear = 2024, getMonth = 2, getDate = 5\<rparr>"

definition example_editor :: editor where
  "example_editor = \<lparr>buffer = ''one\<newline>x ab ab\<newline>ab'', sel_from = 4, sel_to = 5\<rparr>"

text \<open>A vault in memory, for examples: the files written so far; every call succeeds, and
  only the root folder exists.\<close>

definition memory_vault :: "(string \<times> nat list) list collaborators" where
  "memory_vault =
     \<lparr>s3_send = (\<lambda>cmd w. (Inr (), w)),
      adapter_exists = (\<lambda>path w. (Inr (path = []), w)),
      vault_createFolder = (\<lambda>path w. (Inr (), w)),
      adapter_writeBinary = (\<lambda>path bytes w. (Inr (), w @ [(path, bytes)]))\<rparr>"

text \<open>A paste of three files, for examples: two images and a PDF while PDF upload is off.\<close>

definition example_plugin :: plugin where
  "example_plugin =
     \<lparr>the_settings = DEFAULT_SETTINGS\<lparr>imageUrlPath := ''https://b.s3.x/''\<rparr>,
      active_file = Some ''note.md'',
      the_frontmatter = None,
      md5_hex = (\<lambda>bytes. if bytes = [1] then ''aa11'' else ''bb22'')\<rparr>"

definition example_paste :: paste_event where
  "example_paste =
     \<lparr>ev_type = ''paste'', defaultPrevented = False,
      clipboard_files =
        [\<lparr>file_name = ''a.png'', file_type = ''image/png'', file_bytes = [1]\<rparr>,
         \<lparr>file_name = ''doc.pdf'', file_type = ''application/pdf'', file_bytes = [2, 3]\<rparr>,
         \<lparr>file_name = ''b.png'', file_type = ''image/png'', file_bytes = [2]\<rparr>],
      transfer_files = []\<rparr>"

definition example_note :: editor where
  "example_note = \<lparr>buffer = ''top\<newline>'', sel_from = 4, sel_to = 4\<rparr>"

definition example_events :: "event list" where
  "example_events =
     [BytesRead 0 example_date, BytesRead 2 example_date,
      UploadSettled 2 (Inl (Error ''boom'')),
      UploadSettled 0 (Inr ''https://b.s3.x/aa11.png'')]"

section \<open>Facts about the string primitives\<close>

lemma startsWith_iff_prefix: "startsWith s p \<longleftrightarrow> prefix p s"
  by (auto simp: startsWith_def prefix_def) (metis append_take_drop_id)

lemma indexOf_None_iff: "indexOf s t = None \<longleftrightarrow> \<not> sublist t s"
  by (induction s) (auto simp: startsWith_iff_prefix sublist_Cons_right)

lemma startsWith_length: "startsWith s t \<Longrightarrow> length t \<le> length s"
  by (auto simp: startsWith_iff_prefix prefix_def)

lemma indexOf_bound: "indexOf s t = Some i \<Longrightarrow> i + length t \<le> length s"
proof (induction s arbitrary: i)
  case Nil
  then show ?case by (simp split: if_splits)
next
  case (Cons c cs)
  show ?case
  proof (cases "startsWith (c # cs) t")
    case True
    with Cons.prems startsWith_length [OF True] show ?thesis by simp
  next
    case False
    with Cons.prems obtain j where "indexOf cs t = Some j" "i = Suc j" by auto
    with Cons.IH show ?thesis by fastforce
  qed
qed

lemma indexOf_Some_first:
  "indexOf s t = Some i \<Longrightarrow> first_occurrence s (take i s) t (drop (i + length t) s)"
proof (induction s arbitrary: i)
  case Nil
  then show ?case by (simp add: first_occurrence_def split: if_splits)
next
  case (Cons c cs)
  show ?case
  proof (cases "startsWith (c # cs) t")
    case True
    then have "i = 0" using Cons.prems by simp
    moreover from True have "c # cs = t @ drop (length t) (c # cs)"
      by (metis append_take_drop_id startsWith_def)
    ultimately show ?thesis by (simp add: first_occurrence_def)
  next
    case False
    with Cons.prems obtain j where j: "indexOf cs t = Some j" "i = Suc j" by auto
    from Cons.IH [OF j(1)] have fo: "first_occurrence cs (take j cs) t (drop (j + length t) cs)" .
    have "length (c # take j cs) \<le> length pre'" if "c # cs = pre' @ t @ post'" for pre' post'
    proof (cases pre')
      case Nil
      with that have "prefix t (c # cs)" by (simp add: prefix_def)
      with False show ?thesis by (simp add: startsWith_iff_prefix)
    next
      case (Cons a pre'')
      with that have "cs = pre'' @ t @ post'" by simp
      with fo have "length (take j cs) \<le> length pre''" unfolding first_occurrence_def by blast
      with Cons show ?thesis by simp
    qed
    then have least: "\<forall>pre' post'. c # cs = pre' @ t @ post' \<longrightarrow>
        length (c # take j cs) \<le> length pre'" by blast
    from fo have "cs = take j cs @ t @ drop (j + length t) cs"
      unfolding first_occurrence_def by blast
    then have "c # cs = (c # take j cs) @ t @ drop (j + length t) cs" by simp
    with least have "first_occurrence (c # cs) (c # take j cs) t (drop (j + length t) cs)"
      unfolding first_occurrence_def by blast
    then show ?thesis by (simp add: j(2))
  qed
qed

lemma first_occurrence_indexOf:
  assumes "first_occurrence s pre t post"
  shows "indexOf s t = Some (length pre)"
proof -
  from assms have s: "s = pre @ t @ post"
    and least: "\<And>pre' post'. s = pre' @ t @ post' \<Longrightarrow> length pre \<le> length pre'"
    unfolding first_occurrence_def by blast+
  from s have "sublist t s" by (auto simp: sublist_def)
  then obtain i where i: "indexOf s t = Some i"
    using indexOf_None_iff [of s t] by (cases "indexOf s t") auto
  from indexOf_bound [OF i] have le: "i \<le> length s" by simp
  from indexOf_Some_first [OF i]
  have fo: "first_occurrence s (take i s) t (drop (i + length t) s)" .
  then have "s = take i s @ t @ drop (i + length t) s" unfolding first_occurrence_def by blast
  from least [OF this] le have "length pre \<le> i" by simp
  moreover from fo s have "length (take i s) \<le> length pre"
    unfolding first_occurrence_def by blast
  with le have "i \<le> length pre" by simp
  ultimately show ?thesis using i by simp
qed

lemma first_occurrence_parts:
  assumes "first_occurrence s pre t post"
  shows "take (length pre) s = pre" and "drop (length pre + length t) s = post"
  using assms unfolding first_occurrence_def by auto

lemma first_occurrenceI:
  assumes "s = pre @ t @ post" and "t \<noteq> []" and "\<not> sublist t (pre @ butlast t)"
  shows "first_occurrence s pre t post"
proof -
  have "length pre \<le> length pre'" if eq: "s = pre' @ t @ post'" for pre' post'
  proof (rule ccontr)
    assume "\<not> length pre \<le> length pre'"
    then have lt: "length pre' < length pre" by simp
    from assms(1) eq have e: "pre @ t @ post = pre' @ t @ post'" by simp
    from assms(2) have t: "t = butlast t @ [last t]" by simp
    have "take (length pre' + length t) (pre @ butlast t) = pre' @ t"
    proof -
      have "length pre' + length t \<le> length (pre @ butlast t)" using lt assms(2)
        by (cases t) auto
      then have "take (length pre' + length t) (pre @ butlast t)
          = take (length pre' + length t) ((pre @ butlast t) @ [last t] @ post)"
        by simp
      also have "(pre @ butlast t) @ [last t] @ post = pre @ t @ post" using t
        by (metis append.assoc)
      also have "take (length pre' + length t) (pre @ t @ post) = pre' @ t"
        unfolding e by simp
      finally show ?thesis .
    qed
    then have "sublist t (pre @ butlast t)"
      by (metis append_take_drop_id sublist_appendI append.assoc)
    with assms(3) show False by simp
  qed
  with assms(1) show ?thesis unfolding first_occurrence_def by blast
qed

lemma getSubstitution_plain:
  "CHR ''$'' \<notin> set rep \<Longrightarrow> getSubstitution m b a rep = rep"
  by (induction m b a rep rule: getSubstitution.induct) auto

lemma replace_first:
  assumes "first_occurrence s pre t post"
  shows "replace s t rep = pre @ getSubstitution t pre post rep @ post"
  using first_occurrence_indexOf [OF assms] first_occurrence_parts [OF assms]
  by (simp add: replace_def)

lemma replace_absent: "\<not> sublist t s \<Longrightarrow> replace s t rep = s"
  using indexOf_None_iff [of s t] by (simp add: replace_def)

lemma digit_char_in: "d < 10 \<Longrightarrow> digit_char d \<in> set ''0123456789''"
  unfolding digit_char_def by (rule nth_mem) simp

lemma nat_toString_digits: "set (nat_toString n) \<subseteq> set ''0123456789''"
proof (induction n rule: nat_toString.induct)
  case (1 n)
  show ?case
  proof (cases "n < 10")
    case True
    then show ?thesis using digit_char_in [of n] by (subst nat_toString.simps) simp
  next
    case False
    have "n mod 10 < 10" by simp
    from digit_char_in [OF this] 1 [OF False] False show ?thesis
      by (subst nat_toString.simps) simp
  qed
qed


lemma nat_toString_two: "n < 100 \<Longrightarrow> padStart 2 (CHR ''0'') (nat_toString n) = two_digits n"
proof -
  assume n: "n < 100"
  show ?thesis
  proof (cases "n < 10")
    case True
    then have "nat_toString n = [digit_char n]" by (subst nat_toString.simps) simp
    moreover have "digit_char 0 = CHR ''0''" by (simp add: digit_char_def)
    ultimately show ?thesis using True by (simp add: padStart_def two_digits_def)
  next
    case False
    with n have "n div 10 < 10" by simp
    then have "nat_toString (n div 10) = [digit_char (n div 10)]"
      by (subst nat_toString.simps) simp
    with False have "nat_toString n = [digit_char (n div 10), digit_char (n mod 10)]"
      by (subst nat_toString.simps) simp
    then show ?thesis by (simp add: padStart_def two_digits_def)
  qed
qed

lemma nat_toString_four:
  assumes "1000 \<le> n" and "n \<le> 9999"
  shows "nat_toString n = four_digits n"
proof -
  have a: "nat_toString (n div 1000) = [digit_char (n div 1000)]"
    using assms by (subst nat_toString.simps) simp
  have b: "nat_toString (n div 100) = nat_toString (n div 1000) @ [digit_char (n div 100 mod 10)]"
    using assms by (subst nat_toString.simps) (simp add: div_mult2_eq [symmetric])
  have c: "nat_toString (n div 10) = nat_toString (n div 100) @ [digit_char (n div 10 mod 10)]"
    using assms by (subst nat_toString.simps) (simp add: div_mult2_eq [symmetric])
  have d: "nat_toString n = nat_toString (n div 10) @ [digit_char (n mod 10)]"
    using assms by (subst nat_toString.simps) simp
  show ?thesis by (simp add: a b c d four_digits_def)
qed

section \<open>The storage name\<close>

lemma split_on_nonempty: "split_on c s \<noteq> []"
  by (induction s) (auto split: list.splits)

lemma split_on_no_sep: "c \<notin> set s \<Longrightarrow> split_on c s = [s]"
  by (induction s) auto

lemma split_on_append: "split_on c (xs @ c # ys) = split_on c xs @ split_on c ys"
proof (induction xs)
  case Nil
  show ?case by simp
next
  case (Cons x xs)
  obtain l ls where "split_on c xs = l # ls"
    using split_on_nonempty [of c xs] by (cases "split_on c xs") auto
  with Cons show ?case by simp
qed

lemma newFileName_extension:
  assumes "CHR ''.'' \<notin> set ext"
  shows "newFileName digest (stem @ ''.'' @ ext) = digest @ ''.'' @ ext"
  using assms split_on_nonempty [of "CHR ''.''" stem]
  by (simp add: newFileName_def pop_def split_on_append split_on_no_sep)

lemma newFileName_no_dot:
  assumes "CHR ''.'' \<notin> set name"
  shows "newFileName digest name = digest @ ''.'' @ name"
  using assms by (simp add: newFileName_def pop_def split_on_no_sep)

text \<open>
  Claim C3. The storage name is the digest, a dot and the extension of the original file
  name, the extension being what follows the last dot (\<open>newFileName_extension\<close> above).
  For a file name without a dot the claim promises the bare digest; the code appends a dot
  and the whole file name, since \<^verbatim>\<open>name.split(".").pop()\<close> is then the name itself: the
  file \<open>README\<close> is stored as \<open>digest.README\<close>.
\<close>

theorem newFileName_without_extension:
  "newFileName digest ''README'' = digest @ ''.README'' \<and> newFileName digest ''README'' \<noteq> digest"
  by (simp add: newFileName_def pop_def)

section \<open>The public URL prefix\<close>

lemma first_replaced_unique:
  assumes "first_replaced s tok val r"
  shows "r = (case indexOf s tok of None \<Rightarrow> s | Some i \<Rightarrow> take i s @ val @ drop (i + length tok) s)"
proof -
  from assms consider pre post where "first_occurrence s pre tok post" "r = pre @ val @ post"
    | "\<not> sublist tok s" "r = s"
    unfolding first_replaced_def by blast
  then show ?thesis
  proof cases
    case 1
    with first_occurrence_indexOf [OF 1(1)] first_occurrence_parts [OF 1(1)] show ?thesis
      by simp
  next
    case 2
    with indexOf_None_iff [of s tok] show ?thesis by simp
  qed
qed

lemma first_replaced_replace:
  assumes "CHR ''$'' \<notin> set val"
  shows "first_replaced s tok val (replace s tok val)"
proof (cases "sublist tok s")
  case False
  then show ?thesis by (simp add: first_replaced_def replace_absent)
next
  case True
  then obtain i where i: "indexOf s tok = Some i"
    using indexOf_None_iff [of s tok] by (cases "indexOf s tok") auto
  from indexOf_Some_first [OF i] replace_first [of s _ tok _ val] assms
  show ?thesis unfolding first_replaced_def by (auto simp: getSubstitution_plain)
qed

lemma onload_imageUrlPath_plain_bucket:
  assumes "CHR ''$'' \<notin> set (bucket st)"
  shows "if useCustomImageUrl st then imageUrlPath (onload st) = customImageUrl st
         else if forcePathStyle st then imageUrlPath (onload st) = apiEndpoint st @ bucket st @ ''/''
         else first_replaced (apiEndpoint st) ''://'' (''://'' @ bucket st @ ''.'')
                (imageUrlPath (onload st))"
  using assms by (simp add: onload_def first_replaced_replace)

text \<open>
  Claim C6. With the custom public URL enabled the prefix is that URL; with path style
  forced it is the endpoint, the bucket and a slash; otherwise it is the endpoint with the
  first \<open>://\<close> rewritten to \<open>://\<close>, the bucket and a dot. For a bucket name without a
  dollar sign this is \<open>onload_imageUrlPath_plain_bucket\<close> above, and the claim's two examples
  are \<open>onload_examples\<close> below. The virtual-hosted branch passes the bucket name to
  \<^verbatim>\<open>String.prototype.replace\<close> as a replacement template, in which \<^verbatim>\<open>$$\<close> stands for one
  dollar sign: for the bucket \<open>a$$b\<close> the prefix is \<open>https://a$b.s3.example.com/\<close>, which is not
  the endpoint \<open>https://s3.example.com/\<close> with \<open>://a$$b.\<close> in the place of its first \<open>://\<close>.
\<close>

theorem onload_imageUrlPath_dollar_bucket:
  "imageUrlPath (onload (DEFAULT_SETTINGS\<lparr>bucket := ''a$$b'', useCustomEndpoint := True,
      customEndpoint := ''https://s3.example.com/''\<rparr>)) = ''https://a$b.s3.example.com/''
   \<and> ''https://a$b.s3.example.com/'' \<noteq> ''https'' @ (''://'' @ ''a$$b'' @ ''.'') @ ''s3.example.com/''"
  by (simp add: onload_def DEFAULT_SETTINGS_def apiEndpoint_def replace_def startsWith_def)

lemma onload_examples:
  "imageUrlPath (onload (DEFAULT_SETTINGS\<lparr>bucket := ''b'', useCustomEndpoint := True,
      customEndpoint := ''https://s3.example.com/'', forcePathStyle := True\<rparr>)) = ''https://s3.example.com/b/''"
  "imageUrlPath (onload (DEFAULT_SETTINGS\<lparr>bucket := ''b'', useCustomEndpoint := True,
      customEndpoint := ''https://s3.example.com/'', forcePathStyle := False\<rparr>)) = ''https://b.s3.example.com/''"
  by (simp_all add: onload_def DEFAULT_SETTINGS_def apiEndpoint_def replace_def startsWith_def)

section \<open>The folder path\<close>

lemma getFolderPath_effective:
  "getFolderPath st fm lu d =
     (case effective_template st fm lu of
        None \<Rightarrow> Inl (Error ''baseFolder.replace is not a function'')
      | Some template \<Rightarrow>
          Inr (replace
                 (replace
                    (replace template ''${year}'' (int_toString (getFullYear d)))
                    ''${month}'' (padStart 2 (CHR ''0'') (nat_toString (getMonth d + 1))))
                 ''${day}'' (padStart 2 (CHR ''0'') (nat_toString (getDate d)))))"
  by (simp add: getFolderPath_def effective_template_def js_or_def Let_def
      split: option.splits js_value.splits)

lemma dollar_not_digit: "CHR ''$'' \<notin> set (nat_toString n)"
  using nat_toString_digits [of n] by auto

lemma dollar_not_int_toString: "CHR ''$'' \<notin> set (int_toString i)"
  using dollar_not_digit by (simp add: int_toString_def)

lemma dollar_not_two_digits: "n < 100 \<Longrightarrow> CHR ''$'' \<notin> set (two_digits n)"
proof -
  assume "n < 100"
  then have "two_digits n = padStart 2 (CHR ''0'') (nat_toString n)"
    by (simp add: nat_toString_two)
  then show ?thesis using dollar_not_digit [of n] by (simp add: padStart_def)
qed

lemma int_toString_four:
  assumes "1000 \<le> y" and "y \<le> 9999"
  shows "int_toString y = four_digits (nat y)"
  using assms nat_toString_four [of "nat y"] by (simp add: int_toString_def)
















lemma getFolderPath_first_replaced:
  assumes "valid_date d" and "1000 \<le> getFullYear d" and "getFullYear d \<le> 9999"
    and "effective_template st fm lu = Some template"
  shows "\<exists>r1 r2 path.
           getFolderPath st fm lu d = Inr path
         \<and> first_replaced template ''${year}'' (four_digits (nat (getFullYear d))) r1
         \<and> first_replaced r1 ''${month}'' (two_digits (getMonth d + 1)) r2
         \<and> first_replaced r2 ''${day}'' (two_digits (getDate d)) path"
proof -
  let ?Y = "four_digits (nat (getFullYear d))"
  let ?M = "two_digits (getMonth d + 1)"
  let ?D = "two_digits (getDate d)"
  from assms(1) have m: "getMonth d + 1 < 100" and dd: "getDate d < 100"
    by (simp_all add: valid_date_def)
  have Y: "int_toString (getFullYear d) = ?Y" using assms(2,3) by (rule int_toString_four)
  have nY: "CHR ''$'' \<notin> set ?Y" using dollar_not_int_toString [of "getFullYear d"] Y by simp
  have nM: "CHR ''$'' \<notin> set ?M" using m by (rule dollar_not_two_digits)
  have nD: "CHR ''$'' \<notin> set ?D" using dd by (rule dollar_not_two_digits)
  let ?r1 = "replace template ''${year}'' ?Y"
  let ?r2 = "replace ?r1 ''${month}'' ?M"
  have "getFolderPath st fm lu d = Inr (replace ?r2 ''${day}'' ?D)"
    by (simp only: getFolderPath_effective assms(4) option.case Y nat_toString_two [OF m]
        nat_toString_two [OF dd])
  with first_replaced_replace [OF nY] first_replaced_replace [OF nM]
    first_replaced_replace [OF nD]
  show ?thesis by metis
qed

text \<open>
  Claim C4. The template is the frontmatter's override when it is present and not empty,
  the global template otherwise, and each token is substituted once, at its first
  occurrence (\<open>getFolderPath_first_replaced\<close> above). The claim also says that the leading and
  trailing white space of the template is trimmed before the substitution. The code trims
  the global template and only then lets the override take its place, so an override is
  never trimmed: with the override \<open> notes \<close> the folder path is \<open> notes \<close>, white space
  and all, while the same text as the global template gives \<open>notes\<close>.
\<close>

theorem getFolderPath_override_not_trimmed:
  "getFolderPath (DEFAULT_SETTINGS\<lparr>folder := ''img''\<rparr>)
     (Some (no_frontmatter_keys\<lparr>fm_folder := Some (JString '' notes '')\<rparr>)) False example_date
     = Inr '' notes ''
   \<and> '' notes '' \<noteq> trim '' notes ''
   \<and> getFolderPath (DEFAULT_SETTINGS\<lparr>folder := '' notes ''\<rparr>) None False example_date
     = Inr ''notes''"
  by code_simp




section \<open>Lines of a document\<close>

lemma join_lines_Cons: "ls \<noteq> [] \<Longrightarrow> join_lines (l # ls) = l @ CHR 0x0A # join_lines ls"
  by (cases ls) simp_all

lemma join_lines_split_on: "join_lines (split_on (CHR 0x0A) s) = s"
proof (induction s)
  case Nil
  show ?case by simp
next
  case (Cons c s)
  obtain l ls where l: "split_on (CHR 0x0A) s = l # ls"
    using split_on_nonempty [of "CHR 0x0A" s] by (cases "split_on (CHR 0x0A) s") auto
  show ?case
  proof (cases "c = CHR 0x0A")
    case True
    with Cons l show ?thesis by (simp add: join_lines_Cons)
  next
    case False
    with Cons l show ?thesis by (cases ls) auto
  qed
qed

lemma split_on_lines_free: "l \<in> set (split_on c s) \<Longrightarrow> c \<notin> set l"
proof (induction s arbitrary: l)
  case Nil
  then show ?case by simp
next
  case (Cons x s)
  then show ?case by (auto split: if_splits list.splits)
qed

lemma join_lines_snoc_append: "join_lines (xs @ [u @ v]) = join_lines (xs @ [u]) @ v"
proof (induction xs)
  case Nil
  show ?case by simp
next
  case (Cons x xs)
  then show ?case by (simp add: join_lines_Cons)
qed

lemma join_lines_append_Cons:
  "join_lines (xs @ (u @ v) # ys) = join_lines (xs @ [u]) @ join_lines (v # ys)"
proof (induction xs)
  case Nil
  show ?case by (cases ys) simp_all
next
  case (Cons x xs)
  then show ?case by (simp add: join_lines_Cons)
qed

lemma line_sublist_join: "l \<in> set ls \<Longrightarrow> sublist l (join_lines ls)"
proof -
  assume "l \<in> set ls"
  then obtain xs ys where "ls = xs @ l # ys" by (meson split_list)
  then have "join_lines ls = join_lines (xs @ [[]]) @ join_lines (l # ys)"
    using join_lines_append_Cons [of xs "[]" l ys] by simp
  moreover have "\<exists>r. join_lines (l # ys) = l @ r" by (cases ys) simp_all
  ultimately show ?thesis by (auto simp: sublist_def)
qed

section \<open>The line scan\<close>

lemma find_line_shift:
  "find_line ls t k = map_option (\<lambda>p. (fst p + k, snd p)) (find_line ls t 0)"
proof (induction ls arbitrary: k)
  case Nil
  show ?case by simp
next
  case (Cons l ls)
  show ?case
  proof (cases "indexOf l t")
    case None
    with Cons [of "Suc k"] Cons [of "Suc 0"] show ?thesis
      by (simp add: option.map_comp comp_def)
  next
    case (Some ch)
    then show ?thesis by simp
  qed
qed

lemma find_line_None: "find_line ls t k = None \<Longrightarrow> l \<in> set ls \<Longrightarrow> \<not> sublist t l"
proof (induction ls arbitrary: k)
  case Nil
  then show ?case by simp
next
  case (Cons x ls)
  then show ?case by (auto simp: indexOf_None_iff split: option.splits)
qed

lemma find_line_Some:
  "find_line ls t 0 = Some (i, ch) \<Longrightarrow>
     i < length ls \<and> indexOf (ls ! i) t = Some ch \<and> (\<forall>l \<in> set (take i ls). \<not> sublist t l)"
proof (induction ls arbitrary: i)
  case Nil
  then show ?case by simp
next
  case (Cons x ls)
  show ?case
  proof (cases "indexOf x t")
    case (Some c)
    with Cons.prems show ?thesis by simp
  next
    case None
    with Cons.prems have "find_line ls t (Suc 0) = Some (i, ch)" by simp
    then obtain j where j: "find_line ls t 0 = Some (j, ch)" "i = Suc j"
      by (subst (asm) find_line_shift) auto
    from Cons.IH [OF j(1)] None j(2) show ?thesis by (simp add: indexOf_None_iff)
  qed
qed

lemma find_line_first:
  assumes "\<forall>l \<in> set ls1. \<not> sublist t l" and "indexOf L t = Some ch"
  shows "find_line (ls1 @ L # ls2) t k = Some (k + length ls1, ch)"
  using assms(1)
proof (induction ls1 arbitrary: k)
  case Nil
  with assms(2) show ?case by simp
next
  case (Cons x ls1)
  then have "indexOf x t = None" by (simp add: indexOf_None_iff)
  with Cons show ?case by simp
qed

lemma prefix_line_break:
  assumes "c \<notin> set t"
  shows "prefix t (l @ c # rest) \<longleftrightarrow> prefix t l"
proof
  assume "prefix t (l @ c # rest)"
  then consider "prefix t l" | us where "t = l @ us" "prefix us (c # rest)"
    unfolding prefix_append by blast
  then show "prefix t l"
  proof cases
    case 1
    then show ?thesis .
  next
    case 2
    with assms have "us = []" by (cases us) auto
    with 2 show ?thesis by simp
  qed
next
  assume "prefix t l"
  then show "prefix t (l @ c # rest)" by (rule prefix_prefix)
qed

lemma indexOf_line_break:
  assumes "c \<notin> set t"
  shows "indexOf (l @ c # rest) t =
           (case indexOf l t of
              Some i \<Rightarrow> Some i
            | None \<Rightarrow> map_option (\<lambda>j. Suc (length l + j)) (indexOf rest t))"
proof (induction l)
  case Nil
  have "startsWith (c # rest) t \<longleftrightarrow> t = []"
    using prefix_line_break [OF assms, of "[]" rest] by (simp add: startsWith_iff_prefix)
  then show ?case by (simp add: option.map_comp comp_def cong: option.map_cong)
next
  case (Cons x l)
  have "startsWith (x # l @ c # rest) t \<longleftrightarrow> startsWith (x # l) t"
    using prefix_line_break [OF assms, of "x # l" rest] by (simp add: startsWith_iff_prefix)
  with Cons show ?case
    by (simp add: option.map_comp comp_def split: option.splits)
qed

lemma indexOf_join_lines:
  assumes "CHR 0x0A \<notin> set t" and "ls \<noteq> []"
  shows "indexOf (join_lines ls) t =
           (case find_line ls t 0 of
              None \<Rightarrow> None
            | Some (i, ch) \<Rightarrow> Some (length (join_lines (take i ls @ [take ch (ls ! i)]))))"
  using assms(2)
proof (induction ls rule: join_lines.induct)
  case 1
  then show ?case by simp
next
  case (2 l)
  show ?case
  proof (cases "indexOf l t")
    case None
    then show ?thesis by simp
  next
    case (Some ch)
    with indexOf_bound [OF Some] show ?thesis by simp
  qed
next
  case (3 l m ls)
  show ?case
  proof (cases "indexOf l t")
    case (Some ch)
    with indexOf_bound [OF Some] indexOf_line_break [OF assms(1), of l "join_lines (m # ls)"]
    show ?thesis by simp
  next
    case None
    have ih: "indexOf (join_lines (m # ls)) t =
           (case find_line (m # ls) t 0 of
              None \<Rightarrow> None
            | Some (i, ch) \<Rightarrow> Some (length (join_lines (take i (m # ls) @ [take ch ((m # ls) ! i)]))))"
      using 3 by simp
    have shift: "find_line (l # m # ls) t 0
        = map_option (\<lambda>p. (Suc (fst p), snd p)) (find_line (m # ls) t 0)"
      using None find_line_shift [of "m # ls" t "Suc 0"] by simp
    show ?thesis
    proof (cases "find_line (m # ls) t 0")
      case None': None
      with None ih shift indexOf_line_break [OF assms(1), of l "join_lines (m # ls)"]
      show ?thesis by simp
    next
      case (Some p)
      obtain i ch where p: "p = (i, ch)" by (cases p)
      have "join_lines (l # take i (m # ls) @ [take ch ((m # ls) ! i)])
          = l @ CHR 0x0A # join_lines (take i (m # ls) @ [take ch ((m # ls) ! i)])"
        by (rule join_lines_Cons) simp
      with None ih shift Some p indexOf_line_break [OF assms(1), of l "join_lines (m # ls)"]
      show ?thesis by simp
    qed
  qed
qed

lemma posToOffset_in_line:
  assumes "split_on (CHR 0x0A) doc = xs @ L # ys"
  shows "posToOffset doc (length xs, ch) = length (join_lines (xs @ [take ch L]))"
  using assms by (simp add: posToOffset_def Let_def)

lemma replaceText_found:
  assumes ls: "split_on (CHR 0x0A) (getValue ed) = xs @ (pre @ trim target @ post) # ys"
    and f: "find_line (split_on (CHR 0x0A) (getValue ed)) (trim target) 0 = Some (length xs, length pre)"
  shows "getValue ed = join_lines (xs @ [pre]) @ trim target @ join_lines (post # ys)"
    and "getValue (replaceText ed target replacement)
           = join_lines (xs @ [pre]) @ replacement @ join_lines (post # ys)"
proof -
  let ?t = "trim target"
  let ?A = "join_lines (xs @ [pre])"
  let ?B = "join_lines (post # ys)"
  have "getValue ed = join_lines (xs @ (pre @ (?t @ post)) # ys)"
    using join_lines_split_on [of "getValue ed"] ls by simp
  also have "\<dots> = ?A @ join_lines ((?t @ post) # ys)" by (rule join_lines_append_Cons)
  also have "join_lines ((?t @ post) # ys) = ?t @ ?B"
    using join_lines_append_Cons [of "[]" ?t post ys] by simp
  finally show doc: "getValue ed = ?A @ ?t @ ?B" .
  have a: "posToOffset (getValue ed) (length xs, length pre) = length ?A"
    using posToOffset_in_line [OF ls, of "length pre"] by simp
  have "posToOffset (getValue ed) (length xs, length pre + length ?t)
      = length (join_lines (xs @ [pre @ ?t]))"
    using posToOffset_in_line [OF ls, of "length pre + length ?t"] by simp
  then have b: "posToOffset (getValue ed) (length xs, length pre + length ?t)
      = length ?A + length ?t"
    by (simp add: join_lines_snoc_append)
  have "getValue (replaceText ed target replacement)
      = take (length ?A) (getValue ed) @ replacement @ drop (length ?A + length ?t) (getValue ed)"
    using f a b
    by (simp add: replaceText_def Let_def replaceRange_def setCursor_def getValue_def)
  also have "\<dots> = ?A @ replacement @ ?B" by (simp add: doc)
  finally show "getValue (replaceText ed target replacement) = ?A @ replacement @ ?B" .
qed

lemma find_line_decompose:
  assumes "find_line ls t 0 = Some (i, ch)"
  obtains xs pre post ys where "ls = xs @ (pre @ t @ post) # ys" "i = length xs" "ch = length pre"
    "first_occurrence (pre @ t @ post) pre t post" "\<forall>l \<in> set xs. \<not> sublist t l"
proof -
  from find_line_Some [OF assms] have i: "i < length ls" and ix: "indexOf (ls ! i) t = Some ch"
    and before: "\<forall>l \<in> set (take i ls). \<not> sublist t l" by blast+
  let ?L = "ls ! i"
  from indexOf_Some_first [OF ix]
  have fo: "first_occurrence ?L (take ch ?L) t (drop (ch + length t) ?L)" .
  then have L: "?L = take ch ?L @ t @ drop (ch + length t) ?L"
    unfolding first_occurrence_def by blast
  from indexOf_bound [OF ix] have ch: "length (take ch ?L) = ch" by simp
  from i have "ls = take i ls @ ?L # drop (Suc i) ls" by (rule id_take_nth_drop)
  with L have "ls = take i ls @ (take ch ?L @ t @ drop (ch + length t) ?L) # drop (Suc i) ls"
    by simp
  moreover have "i = length (take i ls)" using i by simp
  moreover note ch [symmetric]
  moreover have "first_occurrence (take ch ?L @ t @ drop (ch + length t) ?L) (take ch ?L) t
      (drop (ch + length t) ?L)" using fo L by simp
  ultimately show ?thesis using before that by blast
qed

section \<open>Replacing the placeholder\<close>

lemma replaceText_line:
  assumes ls: "split_on (CHR 0x0A) (getValue ed) = ls1 @ (pre @ trim target @ post) # ls2"
    and before: "\<forall>l \<in> set ls1. \<not> sublist (trim target) l"
    and fo: "first_occurrence (pre @ trim target @ post) pre (trim target) post"
  shows "getValue (replaceText ed target replacement)
           = join_lines (ls1 @ (pre @ replacement @ post) # ls2)"
proof -
  from first_occurrence_indexOf [OF fo]
  have "indexOf (pre @ trim target @ post) (trim target) = Some (length pre)" .
  from find_line_first [OF before this, of ls2 0] ls
  have "find_line (split_on (CHR 0x0A) (getValue ed)) (trim target) 0
      = Some (length ls1, length pre)" by simp
  from replaceText_found(2) [OF ls this]
  have "getValue (replaceText ed target replacement)
      = join_lines (ls1 @ [pre]) @ replacement @ join_lines (post # ls2)" .
  also have "replacement @ join_lines (post # ls2) = join_lines ((replacement @ post) # ls2)"
    using join_lines_append_Cons [of "[]" replacement post ls2] by simp
  also have "join_lines (ls1 @ [pre]) @ join_lines ((replacement @ post) # ls2)
      = join_lines (ls1 @ (pre @ replacement @ post) # ls2)"
    by (rule join_lines_append_Cons [symmetric])
  finally show ?thesis .
qed

lemma replaceText_not_found:
  assumes "find_line (split_on (CHR 0x0A) (getValue ed)) (trim target) 0 = None"
  shows "replaceText ed target replacement = ed"
  using assms by (simp add: replaceText_def)

lemma find_line_sublist:
  assumes "find_line (split_on (CHR 0x0A) doc) t 0 = Some p"
  shows "sublist t doc" and "CHR 0x0A \<notin> set t"
proof -
  obtain i ch where p: "p = (i, ch)" by (cases p)
  from find_line_Some [OF assms [unfolded p]]
  have i: "i < length (split_on (CHR 0x0A) doc)"
    and ix: "indexOf (split_on (CHR 0x0A) doc ! i) t = Some ch" by blast+
  let ?L = "split_on (CHR 0x0A) doc ! i"
  from i have mem: "?L \<in> set (split_on (CHR 0x0A) doc)" by simp
  from ix have sub: "sublist t ?L" using indexOf_None_iff [of ?L t] by simp
  from line_sublist_join [OF mem] have "sublist ?L doc" by (simp add: join_lines_split_on)
  with sub show "sublist t doc" by (rule sublist_order.order.trans)
  from sub have "set t \<subseteq> set ?L" by (auto simp: sublist_def)
  with split_on_lines_free [OF mem] show "CHR 0x0A \<notin> set t" by blast
qed

lemma replaceText_absent:
  assumes "\<not> sublist (trim target) (getValue ed) \<or> CHR 0x0A \<in> set (trim target)"
  shows "replaceText ed target replacement = ed"
proof (rule replaceText_not_found)
  show "find_line (split_on (CHR 0x0A) (getValue ed)) (trim target) 0 = None"
  proof (cases "find_line (split_on (CHR 0x0A) (getValue ed)) (trim target) 0")
    case None
    then show ?thesis .
  next
    case (Some p)
    from find_line_sublist [OF Some] assms show ?thesis by blast
  qed
qed

lemma replaceText_whole_document:
  assumes nl: "CHR 0x0A \<notin> set (trim target)"
  shows "first_replaced (getValue ed) (trim target) replacement
           (getValue (replaceText ed target replacement))"
proof (cases "find_line (split_on (CHR 0x0A) (getValue ed)) (trim target) 0")
  case None
  with indexOf_join_lines [OF nl split_on_nonempty, of "CHR 0x0A" "getValue ed"]
  have "\<not> sublist (trim target) (getValue ed)"
    by (simp add: join_lines_split_on indexOf_None_iff)
  with replaceText_not_found [OF None] show ?thesis by (simp add: first_replaced_def)
next
  case (Some p)
  obtain i ch where p: "p = (i, ch)" by (cases p)
  from Some p have f: "find_line (split_on (CHR 0x0A) (getValue ed)) (trim target) 0 = Some (i, ch)"
    by simp
  from find_line_decompose [OF f] obtain xs pre post ys
    where ls: "split_on (CHR 0x0A) (getValue ed) = xs @ (pre @ trim target @ post) # ys"
      and i: "i = length xs" and ch: "ch = length pre" by metis
  let ?A = "join_lines (xs @ [pre])" and ?B = "join_lines (post # ys)"
  from replaceText_found [OF ls f [unfolded i ch]]
  have doc: "getValue ed = ?A @ trim target @ ?B"
    and res: "getValue (replaceText ed target replacement) = ?A @ replacement @ ?B" by blast+
  let ?ls = "split_on (CHR 0x0A) (getValue ed)"
  have "indexOf (join_lines ?ls) (trim target)
      = Some (length (join_lines (take i ?ls @ [take ch (?ls ! i)])))"
    using indexOf_join_lines [OF nl split_on_nonempty, of "CHR 0x0A" "getValue ed"] f by simp
  moreover have "take i ?ls = xs" "?ls ! i = pre @ trim target @ post"
    using ls i by simp_all
  moreover have "take ch (pre @ trim target @ post) = pre" using ch by simp
  ultimately have "indexOf (getValue ed) (trim target) = Some (length ?A)"
    by (simp add: join_lines_split_on)
  from indexOf_Some_first [OF this] doc
  have "first_occurrence (getValue ed) ?A (trim target) ?B" by simp
  with res show ?thesis unfolding first_replaced_def by blast
qed

text \<open>
  Claim C2. \<^const>\<open>replaceText\<close> trims its target and scans the lines of the document from
  the top. In the first line that contains the target, the first occurrence in that line is
  replaced and nothing else changes. For a target without a line break this is the first
  occurrence in the whole document. A target with a line break inside is in no line, and a
  target that does not occur in the document is not found: the editor is then left as it
  is. The function has no failing branch.
\<close>

theorem replaceText_first_match:
  "(\<forall>ls1 pre post ls2.
       split_on (CHR 0x0A) (getValue ed) = ls1 @ (pre @ trim target @ post) # ls2
       \<and> (\<forall>l \<in> set ls1. \<not> sublist (trim target) l)
       \<and> first_occurrence (pre @ trim target @ post) pre (trim target) post
       \<longrightarrow> getValue (replaceText ed target replacement)
             = join_lines (ls1 @ (pre @ replacement @ post) # ls2))
   \<and> (CHR 0x0A \<notin> set (trim target) \<longrightarrow>
        first_replaced (getValue ed) (trim target) replacement
          (getValue (replaceText ed target replacement)))
   \<and> (CHR 0x0A \<in> set (trim target) \<longrightarrow> replaceText ed target replacement = ed)
   \<and> (\<not> sublist (trim target) (getValue ed) \<longrightarrow> replaceText ed target replacement = ed)"
  using replaceText_line [of ed _ _ target _ _ replacement]
    replaceText_whole_document [of target ed replacement]
    replaceText_absent [of target ed replacement]
  by blast

theorem replaceText_first_match_witness:
  "getValue (replaceText example_editor '' ab\<newline>'' ''Z'') = ''one\<newline>x Z ab\<newline>ab''
   \<and> first_replaced ''one\<newline>x ab ab\<newline>ab'' ''ab'' ''Z''
        (getValue (replaceText example_editor '' ab\<newline>'' ''Z''))
   \<and> sublist (trim ''one\<newline>x'') (getValue example_editor)
   \<and> replaceText example_editor ''one\<newline>x'' ''Z'' = example_editor
   \<and> replaceText example_editor ''zz'' ''Z'' = example_editor"
proof -
  note T = replaceText_first_match [of example_editor "'' ab\<newline>''" "''Z''"]
  note U = replaceText_first_match [of example_editor "''one\<newline>x''" "''Z''"]
  note V = replaceText_first_match [of example_editor "''zz''" "''Z''"]
  have tr: "trim '' ab\<newline>'' = ''ab''" by code_simp
  have doc: "getValue example_editor = ''one\<newline>x ab ab\<newline>ab''" by code_simp
  have sp: "split_on (CHR 0x0A) (getValue example_editor)
      = [''one''] @ (''x '' @ ''ab'' @ '' ab'') # [''ab'']" by code_simp
  have nb: "\<forall>l \<in> set [''one'']. \<not> sublist ''ab'' l" by code_simp
  have "\<not> sublist ''ab'' (''x '' @ butlast ''ab'')" by code_simp
  then have fo: "first_occurrence (''x '' @ ''ab'' @ '' ab'') ''x '' ''ab'' '' ab''"
    by (intro first_occurrenceI) simp_all
  from T [unfolded tr] have
    "split_on (CHR 0x0A) (getValue example_editor) = [''one''] @ (''x '' @ ''ab'' @ '' ab'') # [''ab'']
       \<and> (\<forall>l \<in> set [''one'']. \<not> sublist ''ab'' l)
       \<and> first_occurrence (''x '' @ ''ab'' @ '' ab'') ''x '' ''ab'' '' ab''
     \<longrightarrow> getValue (replaceText example_editor '' ab\<newline>'' ''Z'')
         = join_lines ([''one''] @ (''x '' @ ''Z'' @ '' ab'') # [''ab''])"
    by blast
  with sp nb fo have a: "getValue (replaceText example_editor '' ab\<newline>'' ''Z'')
      = join_lines ([''one''] @ (''x '' @ ''Z'' @ '' ab'') # [''ab''])" by blast
  have j: "join_lines ([''one''] @ (''x '' @ ''Z'' @ '' ab'') # [''ab'']) = ''one\<newline>x Z ab\<newline>ab''"
    by simp
  have "CHR 0x0A \<notin> set ''ab''" by simp
  with T [unfolded tr doc] have b: "first_replaced ''one\<newline>x ab ab\<newline>ab'' ''ab'' ''Z''
        (getValue (replaceText example_editor '' ab\<newline>'' ''Z''))" by blast
  have c: "sublist (trim ''one\<newline>x'') (getValue example_editor)" by code_simp
  have "CHR 0x0A \<in> set (trim ''one\<newline>x'')" by code_simp
  with U have d: "replaceText example_editor ''one\<newline>x'' ''Z'' = example_editor" by blast
  have "\<not> sublist (trim ''zz'') (getValue example_editor)" by code_simp
  with V have e: "replaceText example_editor ''zz'' ''Z'' = example_editor" by blast
  from a j b c d e show ?thesis by simp
qed

section \<open>The placeholder\<close>

lemma trim_placeholder: "trim (placeholder fileName) = ''![uploading...]('' @ fileName @ '')''"
  by (simp add: trim_def placeholder_def is_js_space_def)

lemma placeholder_line_break:
  "CHR 0x0A \<in> set (''![uploading...]('' @ fileName @ '')'') \<longleftrightarrow> CHR 0x0A \<in> set fileName"
  by simp

lemma getValue_replaceSelection:
  "getValue (replaceSelection t ed)
     = take (sel_from ed) (getValue ed) @ t @ drop (sel_to ed) (getValue ed)"
  by (simp add: replaceSelection_def getValue_def)

lemma replaceText_keeps_suffix:
  assumes doc: "getValue ed = front @ t @ rest" and t: "trim target = t"
  shows "\<exists>x. getValue (replaceText ed target replacement) = x @ rest"
proof (cases "CHR 0x0A \<in> set t")
  case True
  with replaceText_absent [of target ed replacement] t doc show ?thesis
    by (metis append.assoc)
next
  case False
  with replaceText_whole_document [of target ed replacement] t
  have "first_replaced (getValue ed) t replacement (getValue (replaceText ed target replacement))"
    by simp
  moreover from doc have "sublist t (getValue ed)" by (auto simp: sublist_def)
  ultimately obtain pre post where fo: "first_occurrence (getValue ed) pre t post"
    and res: "getValue (replaceText ed target replacement) = pre @ replacement @ post"
    unfolding first_replaced_def by blast
  from fo doc have le: "length pre \<le> length front" unfolding first_occurrence_def by blast
  from first_occurrence_parts(2) [OF fo]
  have "post = drop (length pre + length t) ((front @ t) @ rest)" by (simp add: doc)
  also have "\<dots> = drop (length pre + length t) (front @ t) @ rest" using le by simp
  finally show ?thesis using res by (metis append.assoc)
qed

lemma replaceText_at_first_occurrence:
  assumes fo: "first_occurrence (getValue ed) front t rest" and t: "trim target = t"
    and nl: "CHR 0x0A \<notin> set t"
  shows "getValue (replaceText ed target replacement) = front @ replacement @ rest"
proof -
  from replaceText_whole_document [of target ed replacement] t nl
  have "first_replaced (getValue ed) t replacement (getValue (replaceText ed target replacement))"
    by simp
  from first_replaced_unique [OF this] first_occurrence_indexOf [OF fo]
    first_occurrence_parts [OF fo]
  show ?thesis by simp
qed

section \<open>Local uploads to the vault root\<close>

lemma lastIndexOf_absent: "c \<notin> set s \<Longrightarrow> lastIndexOf s [c] = None"
  by (induction s) (auto simp: startsWith_def)

lemma folderPath_root:
  assumes "CHR ''/'' \<notin> set key"
  shows "substring key 0 (js_index (lastIndexOf key ''/'')) = []"
  using lastIndexOf_absent [OF assms] by (simp add: js_index_def substring_def)

lemma startsWith_slash: "CHR ''/'' \<notin> set key \<Longrightarrow> \<not> startsWith key ''/''"
  by (cases key) (auto simp: startsWith_def)

lemma uploadFile_root_result:
  assumes "CHR ''/'' \<notin> set key"
  shows "uploadFile env st True f key buf w =
           (case adapter_exists env [] w of
              (Inl e, w1) \<Rightarrow> ([Exists []], Inl e, w1)
            | (Inr found, w1) \<Rightarrow>
                (case adapter_writeBinary env key buf w1 of
                   (Inl e, w2) \<Rightarrow> ([Exists [], WriteBinary key buf], Inl e, w2)
                 | (Inr u, w2) \<Rightarrow> ([Exists [], WriteBinary key buf], Inr key, w2)))"
  using startsWith_slash [OF assms]
  by (simp add: uploadFile_def folderPath_root [OF assms] write_local_def Let_def
      split: prod.splits sum.splits)

text \<open>
  Claim C10. In local mode, for a key without a slash, the folder path is empty:
  \<^const>\<open>uploadFile\<close> asks whether it exists and, whatever the answer, does not call
  \<^verbatim>\<open>createFolder\<close>; its next call writes the bytes under the key itself, and the path it
  returns is the key, which does not start with a slash. (A collaborator that fails ends
  the upload with its error; no assumption is made of the collaborators.)
\<close>

theorem uploadFile_local_root:
  assumes "CHR ''/'' \<notin> set key"
  shows "uploadFile env st True f key buf w =
           (case adapter_exists env [] w of
              (Inl e, w1) \<Rightarrow> ([Exists []], Inl e, w1)
            | (Inr found, w1) \<Rightarrow>
                (case adapter_writeBinary env key buf w1 of
                   (Inl e, w2) \<Rightarrow> ([Exists [], WriteBinary key buf], Inl e, w2)
                 | (Inr u, w2) \<Rightarrow> ([Exists [], WriteBinary key buf], Inr key, w2)))
       \<and> (\<forall>path. CreateFolder path \<notin> set (fst (uploadFile env st True f key buf w)))
       \<and> (\<forall>r. fst (snd (uploadFile env st True f key buf w)) = Inr r \<longrightarrow>
              r = key \<and> \<not> startsWith r ''/''
              \<and> WriteBinary key buf \<in> set (fst (uploadFile env st True f key buf w)))"
  using startsWith_slash [OF assms]
  by (simp add: uploadFile_root_result [OF assms] split: prod.splits sum.splits)

theorem uploadFile_local_root_witness:
  "CHR ''/'' \<notin> set ''d41d.png''
   \<and> uploadFile memory_vault DEFAULT_SETTINGS True
        \<lparr>file_name = ''a.png'', file_type = ''image/png'', file_bytes = [1, 2, 3]\<rparr>
        ''d41d.png'' [1, 2, 3] []
       = ([Exists [], WriteBinary ''d41d.png'' [1, 2, 3]], Inr ''d41d.png'',
          [(''d41d.png'', [1, 2, 3])])"
  using uploadFile_local_root [of "''d41d.png''" memory_vault DEFAULT_SETTINGS
      "\<lparr>file_name = ''a.png'', file_type = ''image/png'', file_bytes = [1, 2, 3]\<rparr>" "[1, 2, 3]" "[]"]
  by (simp add: memory_vault_def)

lemma uploadFile_creates_folder:
  "fst (uploadFile memory_vault DEFAULT_SETTINGS True
        \<lparr>file_name = ''a.png'', file_type = ''image/png'', file_bytes = [1, 2, 3]\<rparr>
        ''img/d41d.png'' [1, 2, 3] [])
     = [Exists ''img'', CreateFolder ''img'', WriteBinary ''img/d41d.png'' [1, 2, 3]]"
  by (simp add: uploadFile_def memory_vault_def write_local_def js_index_def substring_def
      startsWith_def Let_def)

section \<open>The batch of a paste\<close>

lemma first_rejection_None: "first_rejection ts = None \<longleftrightarrow> (\<forall>t \<in> set ts. \<not> is_rejected t)"
  by (induction ts rule: first_rejection.induct) auto

lemma promise_all_fields [simp]:
  "b_tasks (promise_all s) = b_tasks s"
  "b_editor (promise_all s) = b_editor s"
  "b_localUpload (promise_all s) = b_localUpload s"
  by (simp_all add: promise_all_def split: option.splits)

lemma resume_fields [simp]:
  "b_status (resume pl e s) = b_status s"
  "b_notices (resume pl e s) = b_notices s"
  "b_localUpload (resume pl e s) = b_localUpload s"
  "length (b_tasks (resume pl e s)) = length (b_tasks s)"
  by (simp_all add: resume_def Let_def split: event.splits task.splits sum.splits)

lemma resume_all_settled:
  assumes "list_all settled (b_tasks s)"
  shows "resume pl e s = s"
proof -
  have st: "b_tasks s ! i = Skipped \<or> b_tasks s ! i = Done" if "i < length (b_tasks s)" for i
    using assms that by (simp add: list_all_length settled_def)
  show ?thesis
  proof (cases e)
    case (BytesRead i d)
    with st [of i] show ?thesis by (auto simp: resume_def split: task.splits)
  next
    case (BytesFailed i err)
    with st [of i] show ?thesis by (auto simp: resume_def split: task.splits)
  next
    case (UploadSettled i r)
    with st [of i] show ?thesis by (auto simp: resume_def split: task.splits)
  qed
qed

lemma resume_task:
  assumes "j < length (b_tasks s)"
  shows "b_tasks (resume pl e s) ! j = b_tasks s ! j
       \<or> (\<exists>ph thisType key. b_tasks (resume pl e s) ! j = Uploading ph thisType key)
       \<or> b_tasks (resume pl e s) ! j = Done
       \<or> is_read_failure e
       \<or> effective_template (the_settings pl) (the_frontmatter pl) (b_localUpload s) = None"
  using assms
  by (cases e)
    (simp_all add: resume_def Let_def nth_list_update getFolderPath_effective
      split: task.splits option.splits)

lemma resume_no_rejection:
  assumes "\<not> is_read_failure e" and "\<forall>t \<in> set (b_tasks s). \<not> is_rejected t"
    and "effective_template (the_settings pl) (the_frontmatter pl) (b_localUpload s) \<noteq> None"
  shows "\<forall>t \<in> set (b_tasks (resume pl e s)). \<not> is_rejected t"
proof -
  have "\<not> is_rejected (b_tasks (resume pl e s) ! j)" if j: "j < length (b_tasks s)" for j
  proof -
    from assms(2) j have "\<not> is_rejected (b_tasks s ! j)" by simp
    with resume_task [OF j, of pl e] assms(1,3) show ?thesis by auto
  qed
  then show ?thesis by (simp add: all_set_conv_all_nth)
qed

lemma promise_all_contained:
  assumes "\<forall>t \<in> set (b_tasks s). \<not> is_rejected t"
    and "b_status s = Pending \<and> b_notices s = []
         \<or> b_status s = Resolved \<and> b_notices s = [''All files processed.'']
           \<and> list_all settled (b_tasks s)"
  shows "contained (promise_all s)"
  using assms first_rejection_None [of "b_tasks s"]
  by (auto simp: contained_def promise_all_def split: option.splits)

lemma step_localUpload [simp]: "b_localUpload (step pl s e) = b_localUpload s"
  by (simp add: step_def)

lemma run_localUpload [simp]: "b_localUpload (run pl evs s) = b_localUpload s"
  unfolding run_def by (induction evs arbitrary: s) simp_all

lemma step_contained:
  assumes "contained s" and "\<not> is_read_failure e"
    and "effective_template (the_settings pl) (the_frontmatter pl) (b_localUpload s) \<noteq> None"
  shows "contained (step pl s e)"
proof (cases "list_all settled (b_tasks s)")
  case True
  with assms(1) have "promise_all s = s" by (simp add: contained_def promise_all_def)
  with True show ?thesis using assms(1) by (simp add: step_def resume_all_settled)
next
  case False
  with assms(1) have "b_status s = Pending" "b_notices s = []"
    by (simp_all add: contained_def)
  moreover from assms have "\<forall>t \<in> set (b_tasks (resume pl e s)). \<not> is_rejected t"
    by (intro resume_no_rejection) (simp_all add: contained_def)
  ultimately show ?thesis unfolding step_def by (intro promise_all_contained) simp_all
qed

lemma run_contained:
  assumes "contained s" and "list_all (\<lambda>e. \<not> is_read_failure e) evs"
    and "effective_template (the_settings pl) (the_frontmatter pl) (b_localUpload s) \<noteq> None"
  shows "contained (run pl evs s)"
  using assms unfolding run_def
  by (induction evs arbitrary: s) (simp_all add: step_contained)

lemma start_upload_not_rejected: "\<not> is_rejected (start_upload v a p f)"
  by (simp add: start_upload_def split: option.splits)

lemma pasteHandler_batch:
  assumes "pasteHandler pl ev ed = Some s0"
  shows "\<exists>files v a p lu. files \<noteq> [] \<and> s0 = promise_all
           \<lparr>b_editor = ed, b_tasks = map (start_upload v a p) files, b_notices = [],
            b_status = Pending, b_localUpload = lu, b_prevented = True\<rparr>"
proof -
  from assms have nd: "\<not> defaultPrevented ev" by (auto simp: pasteHandler_def)
  from assms nd obtain n where n: "active_file pl = Some n" "n \<noteq> []"
    by (auto simp: pasteHandler_def split: option.splits if_splits)
  let ?fs = "if ev_type ev = ''paste'' then clipboard_files ev
             else if ev_type ev = ''drop'' then transfer_files ev else []"
  from assms nd n have "?fs \<noteq> []"
    by (auto simp: pasteHandler_def Let_def split: if_splits)
  moreover from assms nd n this have "s0 = promise_all
      \<lparr>b_editor = ed,
       b_tasks = map (start_upload
           (overlay (the_frontmatter pl) fm_uploadVideo (uploadVideo (the_settings pl)))
           (overlay (the_frontmatter pl) fm_uploadAudio (uploadAudio (the_settings pl)))
           (overlay (the_frontmatter pl) fm_uploadPdf (uploadPdf (the_settings pl)))) ?fs,
       b_notices = [], b_status = Pending,
       b_localUpload = overlay (the_frontmatter pl) fm_localUpload (localUpload (the_settings pl)),
       b_prevented = True\<rparr>"
    by (simp add: pasteHandler_def Let_def split: if_splits)
  ultimately show ?thesis by blast
qed

lemma pasteHandler_contained:
  assumes "pasteHandler pl ev ed = Some s0"
  shows "contained s0"
proof -
  from pasteHandler_batch [OF assms] obtain files v a p lu where
    s0: "s0 = promise_all
           \<lparr>b_editor = ed, b_tasks = map (start_upload v a p) files, b_notices = [],
            b_status = Pending, b_localUpload = lu, b_prevented = True\<rparr>" by blast
  show ?thesis unfolding s0
    by (intro promise_all_contained) (auto simp: start_upload_not_rejected)
qed

lemma step_upload_settled:
  assumes "i < length (b_tasks s)" and "b_tasks s ! i = Uploading ph thisType key"
  shows "b_tasks (step pl s (UploadSettled i r)) = (b_tasks s)[i := Done]"
    and "b_editor (step pl s (UploadSettled i r))
           = replaceText (b_editor s) ph (reconciliation pl (b_localUpload s) thisType r)"
  using assms by (simp_all add: step_def resume_def)

lemma reconciliation_failure:
  "reconciliation pl lu thisType (Inl (Error message))
     = ''Error uploading file: '' @ message @ [CHR 0x0A]"
  by (simp add: reconciliation_def)

lemma step_tasks: "b_tasks (step pl s e) = b_tasks (resume pl e s)"
  by (simp add: step_def)

lemma resume_reading:
  assumes "j < length (b_tasks s)" and "is_reading (b_tasks (resume pl e s) ! j)"
  shows "is_reading (b_tasks s ! j)"
  using assms
  by (cases e)
    (auto simp: resume_def Let_def nth_list_update split: task.splits if_splits sum.splits)

lemma resume_uploading:
  assumes "j < length (b_tasks s)" and "is_uploading (b_tasks (resume pl e s) ! j)"
  shows "is_uploading (b_tasks s ! j) \<or> is_reading (b_tasks s ! j)"
  using assms
  by (cases e)
    (auto simp: resume_def Let_def nth_list_update split: task.splits if_splits sum.splits)

lemma resume_bytes_read:
  assumes "i < length (b_tasks s)"
  shows "\<not> is_reading (b_tasks (resume pl (BytesRead i d) s) ! i)"
  using assms by (auto simp: resume_def Let_def split: task.splits sum.splits)

lemma resume_upload_settled:
  assumes "i < length (b_tasks s)"
  shows "\<not> is_uploading (b_tasks (resume pl (UploadSettled i r) s) ! i)"
  using assms by (auto simp: resume_def Let_def split: task.splits sum.splits)

lemma run_append: "run pl (xs @ ys) s = run pl ys (run pl xs s)"
  by (simp add: run_def)

lemma run_length [simp]: "length (b_tasks (run pl evs s)) = length (b_tasks s)"
  unfolding run_def by (induction evs arbitrary: s) (simp_all add: step_tasks)

lemma run_all_bytes:
  assumes "k \<le> length (b_tasks s)" and "j < k"
  shows "\<not> is_reading (b_tasks (run pl (map (\<lambda>i. BytesRead i d) [0..<k]) s) ! j)"
  using assms
proof (induction k arbitrary: j)
  case 0
  then show ?case by simp
next
  case (Suc k)
  let ?s = "run pl (map (\<lambda>i. BytesRead i d) [0..<k]) s"
  have run: "run pl (map (\<lambda>i. BytesRead i d) [0..<Suc k]) s = step pl ?s (BytesRead k d)"
    by (simp add: run_def)
  have len: "length (b_tasks ?s) = length (b_tasks s)" by simp
  show ?case
  proof (cases "j = k")
    case True
    have "k < length (b_tasks ?s)" using Suc.prems len by simp
    from resume_bytes_read [OF this] True show ?thesis
      unfolding run step_tasks by simp
  next
    case False
    with Suc.prems have j: "j < k" by simp
    with Suc.IH [of j] Suc.prems have "\<not> is_reading (b_tasks ?s ! j)" by simp
    moreover have "j < length (b_tasks ?s)" using j Suc.prems by simp
    ultimately show ?thesis unfolding run step_tasks using resume_reading by blast
  qed
qed

lemma run_keeps_not_reading:
  assumes "j < length (b_tasks s)" and "\<not> is_reading (b_tasks s ! j)"
  shows "\<not> is_reading (b_tasks (run pl evs s) ! j)"
  using assms unfolding run_def
proof (induction evs arbitrary: s)
  case Nil
  then show ?case by simp
next
  case (Cons e evs)
  have "\<not> is_reading (b_tasks (step pl s e) ! j)"
    using Cons.prems resume_reading [of j s pl e] by (auto simp: step_tasks)
  moreover have "j < length (b_tasks (step pl s e))" using Cons.prems by (simp add: step_tasks)
  ultimately show ?case using Cons.IH [of "step pl s e"] by simp
qed

lemma run_all_uploads:
  assumes "k \<le> length (b_tasks s)" and "j < k"
    and "\<forall>i < length (b_tasks s). \<not> is_reading (b_tasks s ! i)"
  shows "\<not> is_uploading (b_tasks (run pl (map (\<lambda>i. UploadSettled i (r i)) [0..<k]) s) ! j)"
  using assms(1,2)
proof (induction k arbitrary: j)
  case 0
  then show ?case by simp
next
  case (Suc k)
  let ?s = "run pl (map (\<lambda>i. UploadSettled i (r i)) [0..<k]) s"
  have run: "run pl (map (\<lambda>i. UploadSettled i (r i)) [0..<Suc k]) s
      = step pl ?s (UploadSettled k (r k))"
    by (simp add: run_def)
  have len: "length (b_tasks ?s) = length (b_tasks s)" by simp
  show ?case
  proof (cases "j = k")
    case True
    have "k < length (b_tasks ?s)" using Suc.prems len by simp
    from resume_upload_settled [OF this] True show ?thesis
      unfolding run step_tasks by simp
  next
    case False
    with Suc.prems have j: "j < k" by simp
    with Suc.IH [of j] Suc.prems have "\<not> is_uploading (b_tasks ?s ! j)" by simp
    moreover have jl: "j < length (b_tasks ?s)" using j Suc.prems by simp
    moreover have "\<not> is_reading (b_tasks ?s ! j)"
      using run_keeps_not_reading [of j s pl "map (\<lambda>i. UploadSettled i (r i)) [0..<k]"] jl assms(3)
      by simp
    ultimately show ?thesis unfolding run step_tasks using resume_uploading by blast
  qed
qed

lemma delivery_settles:
  assumes "\<forall>t \<in> set (b_tasks (run pl (delivery d r (length (b_tasks s))) s)). \<not> is_rejected t"
  shows "list_all settled (b_tasks (run pl (delivery d r (length (b_tasks s))) s))"
proof -
  let ?n = "length (b_tasks s)"
  let ?s1 = "run pl (map (\<lambda>i. BytesRead i d) [0..<?n]) s"
  let ?s2 = "run pl (map (\<lambda>i. UploadSettled i (r i)) [0..<?n]) ?s1"
  have fin: "run pl (delivery d r ?n) s = ?s2" by (simp add: delivery_def run_append)
  have r1: "\<forall>i < length (b_tasks ?s1). \<not> is_reading (b_tasks ?s1 ! i)"
    using run_all_bytes [of ?n s _ pl d] by simp
  have "settled (b_tasks ?s2 ! j)" if j: "j < ?n" for j
  proof -
    have "\<not> is_uploading (b_tasks ?s2 ! j)"
      using run_all_uploads [of ?n ?s1 j pl r] j r1 by simp
    moreover have "\<not> is_reading (b_tasks ?s2 ! j)"
      using run_keeps_not_reading [of j ?s1 pl "map (\<lambda>i. UploadSettled i (r i)) [0..<?n]"] r1 j
      by simp
    moreover have "\<not> is_rejected (b_tasks ?s2 ! j)" using assms j unfolding fin by simp
    ultimately show ?thesis by (cases "b_tasks ?s2 ! j") (simp_all add: settled_def)
  qed
  then show ?thesis unfolding fin by (simp add: list_all_length)
qed

lemma delivery_no_read_failure: "list_all (\<lambda>e. \<not> is_read_failure e) (delivery d r n)"
  by (auto simp: delivery_def list_all_iff)

text \<open>What the \<^verbatim>\<open>try\<close> block contains. When no file fails to be read and the folder
  template is a string, every outcome of every upload, in every order, leaves no pipeline
  and no batch rejected; the batch has resolved, and the notice has been shown once,
  exactly when every pipeline has settled; an upload that settles changes the pipeline of
  its own file only; and an upload that failed leaves the line
  \<open>Error uploading file: message\<close> where its placeholder was first found.\<close>

lemma upload_failures_contained:
  assumes "pasteHandler pl ev ed = Some s0" and "list_all (\<lambda>e. \<not> is_read_failure e) evs"
    and ok: "effective_template (the_settings pl) (the_frontmatter pl) (b_localUpload s0) \<noteq> None"
  shows "let s = run pl evs s0 in
       (\<forall>err. b_status s \<noteq> RejectedBatch err)
     \<and> (\<forall>t \<in> set (b_tasks s). \<not> is_rejected t)
     \<and> (b_status s = Resolved \<longleftrightarrow> list_all settled (b_tasks s))
     \<and> b_notices s = (if list_all settled (b_tasks s) then [''All files processed.''] else [])
     \<and> (\<forall>i ph thisType key r.
           i < length (b_tasks s) \<and> b_tasks s ! i = Uploading ph thisType key \<longrightarrow>
             b_tasks (step pl s (UploadSettled i r)) = (b_tasks s)[i := Done]
           \<and> b_editor (step pl s (UploadSettled i r))
               = replaceText (b_editor s) ph (reconciliation pl (b_localUpload s) thisType r)
           \<and> (\<forall>message front rest.
                 r = Inl (Error message)
                 \<and> first_occurrence (getValue (b_editor s)) front (trim ph) rest
                 \<and> CHR 0x0A \<notin> set (trim ph) \<longrightarrow>
                   getValue (b_editor (step pl s (UploadSettled i r)))
                     = front @ ''Error uploading file: '' @ message @ CHR 0x0A # rest))
     \<and> (\<forall>d r.
           list_all settled (b_tasks (run pl (delivery d r (length (b_tasks s))) s))
         \<and> b_status (run pl (delivery d r (length (b_tasks s))) s) = Resolved
         \<and> b_notices (run pl (delivery d r (length (b_tasks s))) s)
             = [''All files processed.''])"
proof -
  let ?s = "run pl evs s0"
  from run_contained [OF pasteHandler_contained [OF assms(1)] assms(2) ok]
  have c: "contained ?s" .
  then have a: "\<forall>err. b_status ?s \<noteq> RejectedBatch err"
    and b: "\<forall>t \<in> set (b_tasks ?s). \<not> is_rejected t"
    and d: "b_status ?s = Resolved \<longleftrightarrow> list_all settled (b_tasks ?s)"
    and e: "b_notices ?s
        = (if list_all settled (b_tasks ?s) then [''All files processed.''] else [])"
    by (auto simp: contained_def split: if_splits)
  have f: "b_tasks (step pl ?s (UploadSettled i r)) = (b_tasks ?s)[i := Done]
      \<and> b_editor (step pl ?s (UploadSettled i r))
          = replaceText (b_editor ?s) ph (reconciliation pl (b_localUpload ?s) thisType r)
      \<and> (\<forall>message front rest.
            r = Inl (Error message)
            \<and> first_occurrence (getValue (b_editor ?s)) front (trim ph) rest
            \<and> CHR 0x0A \<notin> set (trim ph) \<longrightarrow>
              getValue (b_editor (step pl ?s (UploadSettled i r)))
                = front @ ''Error uploading file: '' @ message @ CHR 0x0A # rest)"
    if "i < length (b_tasks ?s)" "b_tasks ?s ! i = Uploading ph thisType key"
    for i ph thisType key r
  proof -
    note st = step_upload_settled [OF that, of pl r]
    have "getValue (b_editor (step pl ?s (UploadSettled i r)))
        = front @ ''Error uploading file: '' @ message @ CHR 0x0A # rest"
      if "r = Inl (Error message)"
        "first_occurrence (getValue (b_editor ?s)) front (trim ph) rest"
        "CHR 0x0A \<notin> set (trim ph)" for message front rest
    proof -
      have "getValue (b_editor (step pl ?s (UploadSettled i r)))
          = getValue (replaceText (b_editor ?s) ph
              (''Error uploading file: '' @ message @ [CHR 0x0A]))"
        unfolding st(2) by (simp only: that(1) reconciliation_failure)
      also have "\<dots> = front @ (''Error uploading file: '' @ message @ [CHR 0x0A]) @ rest"
        using that(2) refl that(3) by (rule replaceText_at_first_occurrence)
      finally show ?thesis by simp
    qed
    with st show ?thesis by blast
  qed
  have g: "list_all settled (b_tasks (run pl (delivery d' r (length (b_tasks ?s))) ?s))
      \<and> b_status (run pl (delivery d' r (length (b_tasks ?s))) ?s) = Resolved
      \<and> b_notices (run pl (delivery d' r (length (b_tasks ?s))) ?s)
          = [''All files processed.'']" for d' r
  proof -
    let ?fin = "run pl (delivery d' r (length (b_tasks ?s))) ?s"
    from run_contained [OF c delivery_no_read_failure] ok have cf: "contained ?fin" by simp
    then have "\<forall>t \<in> set (b_tasks ?fin). \<not> is_rejected t" by (simp add: contained_def)
    then have "list_all settled (b_tasks ?fin)" by (rule delivery_settles)
    with cf show ?thesis by (simp add: contained_def)
  qed
  from a b d e f g show ?thesis unfolding Let_def by blast
qed

text \<open>
  Claim C1. Not every failure of a file's pipeline is caught. The \<^verbatim>\<open>try\<close> block encloses the
  upload and the reconciliation only; reading the bytes of the file and computing the folder
  come before it. With a frontmatter \<open>folder\<close> that is the number 2024, the folder
  computation of each accepted file throws after its placeholder has been inserted: both
  pipelines are rejected, the batch promise is rejected with the same error, both
  placeholders stay in the document and no notice is shown, although every pipeline has
  settled. With the default settings, when the second image cannot be read while the upload
  of the first succeeds, the first embed is written, the batch promise is rejected with the
  read error, and again no notice is shown after every pipeline has settled.
\<close>

theorem pasteHandler_rejection_escapes:
  "(let pl = example_plugin
       \<lparr>the_frontmatter := Some (no_frontmatter_keys\<lparr>fm_folder := Some (JNumber 2024)\<rparr>)\<rparr>;
        s = run pl [BytesRead 0 example_date, BytesRead 2 example_date]
              (the (pasteHandler pl example_paste example_note))
    in b_tasks s = [Rejected (Error ''baseFolder.replace is not a function''), Skipped,
                    Rejected (Error ''baseFolder.replace is not a function'')]
     \<and> b_status s = RejectedBatch (Error ''baseFolder.replace is not a function'')
     \<and> b_notices s = []
     \<and> getValue (b_editor s)
         = ''top\<newline>![uploading...](aa11.png)\<newline>![uploading...](bb22.png)\<newline>'')
   \<and> (let s = run example_plugin
              [BytesRead 0 example_date, BytesFailed 2 (Error ''unreadable''),
               UploadSettled 0 (Inr ''https://b.s3.x/aa11.png'')]
              (the (pasteHandler example_plugin example_paste example_note))
      in b_tasks s = [Done, Skipped, Rejected (Error ''unreadable'')]
       \<and> b_status s = RejectedBatch (Error ''unreadable'')
       \<and> b_notices s = []
       \<and> getValue (b_editor s) = ''top\<newline>![image](https://b.s3.x/aa11.png)\<newline>'')"
  by code_simp

section \<open>The placeholder and its line feed\<close>

lemma replaceText_before_suffix:
  assumes doc: "getValue ed = front @ t @ rest" and t: "trim target = t"
    and nl: "CHR 0x0A \<notin> set t"
  shows "\<exists>x. first_replaced (front @ t) t replacement x
           \<and> getValue (replaceText ed target replacement) = x @ rest"
proof -
  from replaceText_whole_document [of target ed replacement] t nl
  have "first_replaced (getValue ed) t replacement (getValue (replaceText ed target replacement))"
    by simp
  moreover from doc have "sublist t (getValue ed)" by (auto simp: sublist_def)
  ultimately obtain pre post where fo: "first_occurrence (getValue ed) pre t post"
    and res: "getValue (replaceText ed target replacement) = pre @ replacement @ post"
    unfolding first_replaced_def by blast
  from fo doc have le: "length pre \<le> length front" unfolding first_occurrence_def by blast
  let ?post = "drop (length pre + length t) (front @ t)"
  from first_occurrence_parts(2) [OF fo]
  have "post = drop (length pre + length t) ((front @ t) @ rest)" by (simp add: doc)
  also have "\<dots> = ?post @ rest" using le by simp
  finally have post: "post = ?post @ rest" .
  from fo have "getValue ed = pre @ t @ post" by (simp add: first_occurrence_def)
  with doc post have "(front @ t) @ rest = (pre @ t @ ?post) @ rest" by simp
  then have eq: "front @ t = pre @ t @ ?post" by (simp only: append_same_eq)
  have "length pre \<le> length pre'" if "front @ t = pre' @ t @ post'" for pre' post'
  proof -
    from that doc have "getValue ed = pre' @ t @ (post' @ rest)" by simp
    with fo show ?thesis unfolding first_occurrence_def by blast
  qed
  with eq have "first_occurrence (front @ t) pre t ?post" unfolding first_occurrence_def by blast
  then have "first_replaced (front @ t) t replacement (pre @ replacement @ ?post)"
    unfolding first_replaced_def by blast
  moreover from res post
  have "getValue (replaceText ed target replacement) = (pre @ replacement @ ?post) @ rest"
    by simp
  ultimately show ?thesis by blast
qed

lemma step_editor: "b_editor (step pl s e) = b_editor (resume pl e s)"
  by (simp add: step_def)

lemma step_bytes_read:
  assumes "i < length (b_tasks s)" and "b_tasks s ! i = Reading f thisType"
  shows "b_editor (step pl s (BytesRead i d))
           = replaceSelection (placeholder (newFileName (md5_hex pl (file_bytes f)) (file_name f)))
               (b_editor s)"
    and "getFolderPath (the_settings pl) (the_frontmatter pl) (b_localUpload s) d = Inr folder'
         \<Longrightarrow> b_tasks (step pl s (BytesRead i d)) ! i
             = Uploading (placeholder (newFileName (md5_hex pl (file_bytes f)) (file_name f)))
                 thisType
                 (storage_key folder' (newFileName (md5_hex pl (file_bytes f)) (file_name f)))"
  using assms
  by (simp_all add: step_editor step_tasks resume_def Let_def split: sum.splits)

text \<open>
  Claim C9. When the bytes of an accepted file have been read, its pipeline replaces the
  selection by \<open>![uploading...](\<close>, the derived file name, \<open>)\<close> and a line feed, and
  then waits for the upload with that text as the target of the reconciliation. When the
  upload has settled, for every outcome, and wherever that placeholder and its line feed are
  in the document: if the file name has no line feed, the reconciliation replaces the first
  occurrence of the placeholder without its line feed in the part of the document that ends
  where the placeholder's text ends, by the embed or by the line
  \<open>Error uploading file: message\<close>, and the line feed inserted with the placeholder and all
  that follows it remain; if the file name has a line feed, the document is not changed.
\<close>

theorem placeholder_newline_remains:
  assumes "i < length (b_tasks s)"
  shows
    "(b_tasks s ! i = Reading f thisType \<longrightarrow>
        getValue (b_editor (step pl s (BytesRead i d)))
          = take (sel_from (b_editor s)) (getValue (b_editor s))
            @ (''![uploading...]('' @ newFileName (md5_hex pl (file_bytes f)) (file_name f) @ '')'')
            @ CHR 0x0A # drop (sel_to (b_editor s)) (getValue (b_editor s))
        \<and> (getFolderPath (the_settings pl) (the_frontmatter pl) (b_localUpload s) d = Inr folder'
            \<longrightarrow> b_tasks (step pl s (BytesRead i d)) ! i
                = Uploading
                    ((''![uploading...]('' @ newFileName (md5_hex pl (file_bytes f)) (file_name f)
                       @ '')'') @ [CHR 0x0A])
                    thisType
                    (storage_key folder'
                       (newFileName (md5_hex pl (file_bytes f)) (file_name f)))))
     \<and> (b_tasks s ! i = Uploading ((''![uploading...]('' @ fileName @ '')'') @ [CHR 0x0A]) uploadType key
        \<and> getValue (b_editor s) = front @ (''![uploading...]('' @ fileName @ '')'') @ CHR 0x0A # rest
        \<longrightarrow>
          (if CHR 0x0A \<in> set fileName
           then getValue (b_editor (step pl s (UploadSettled i r))) = getValue (b_editor s)
           else \<exists>x. first_replaced (front @ (''![uploading...]('' @ fileName @ '')''))
                       (''![uploading...]('' @ fileName @ '')'')
                       (reconciliation pl (b_localUpload s) uploadType r) x
                  \<and> getValue (b_editor (step pl s (UploadSettled i r))) = x @ CHR 0x0A # rest)
          \<and> (CHR 0x0A \<notin> set fileName \<longrightarrow>
               (\<exists>x. first_replaced (front @ (''![uploading...]('' @ fileName @ '')''))
                       (''![uploading...]('' @ fileName @ '')'')
                       (''Error uploading file: '' @ message @ [CHR 0x0A]) x
                  \<and> getValue (b_editor (step pl s (UploadSettled i (Inl (Error message)))))
                      = x @ CHR 0x0A # rest)))"
proof -
  let ?name = "newFileName (md5_hex pl (file_bytes f)) (file_name f)"
  let ?body = "''![uploading...]('' @ fileName @ '')''"
  have p: "placeholder n = (''![uploading...]('' @ n @ '')'') @ [CHR 0x0A]" for n
    by (simp add: placeholder_def)
  have a: "getValue (b_editor (step pl s (BytesRead i d)))
          = take (sel_from (b_editor s)) (getValue (b_editor s))
            @ (''![uploading...]('' @ ?name @ '')'')
            @ CHR 0x0A # drop (sel_to (b_editor s)) (getValue (b_editor s))"
    if "b_tasks s ! i = Reading f thisType"
    by (simp only: step_bytes_read(1) [OF assms that] getValue_replaceSelection p) simp
  have b: "b_tasks (step pl s (BytesRead i d)) ! i
        = Uploading ((''![uploading...]('' @ ?name @ '')'') @ [CHR 0x0A]) thisType
            (storage_key folder' ?name)"
    if "b_tasks s ! i = Reading f thisType"
      "getFolderPath (the_settings pl) (the_frontmatter pl) (b_localUpload s) d = Inr folder'"
    by (simp only: step_bytes_read(2) [OF assms that] p)
  have c: "(if CHR 0x0A \<in> set fileName
           then getValue (b_editor (step pl s (UploadSettled i r'))) = getValue (b_editor s)
           else \<exists>x. first_replaced (front @ ?body) ?body
                       (reconciliation pl (b_localUpload s) uploadType r') x
                  \<and> getValue (b_editor (step pl s (UploadSettled i r'))) = x @ CHR 0x0A # rest)"
    if t: "b_tasks s ! i = Uploading (?body @ [CHR 0x0A]) uploadType key"
      and doc: "getValue (b_editor s) = front @ ?body @ CHR 0x0A # rest" for r'
  proof -
    let ?R = "reconciliation pl (b_localUpload s) uploadType r'"
    from t have t': "b_tasks s ! i = Uploading (placeholder fileName) uploadType key"
      by (simp only: p)
    note st = step_upload_settled [OF assms t', of pl r']
    note tr = trim_placeholder [of fileName]
    show ?thesis
    proof (cases "CHR 0x0A \<in> set fileName")
      case True
      then have "CHR 0x0A \<in> set (trim (placeholder fileName))" by (simp add: tr)
      then have "replaceText (b_editor s) (placeholder fileName) ?R = b_editor s"
        by (intro replaceText_absent) simp
      with st(2) True show ?thesis by simp
    next
      case False
      then have nl: "CHR 0x0A \<notin> set ?body" by simp
      from replaceText_before_suffix [OF doc tr nl, of ?R] st(2) False
      show ?thesis by simp
    qed
  qed
  have e: "\<exists>x. first_replaced (front @ ?body) ?body
                 (''Error uploading file: '' @ message @ [CHR 0x0A]) x
            \<and> getValue (b_editor (step pl s (UploadSettled i (Inl (Error message)))))
                = x @ CHR 0x0A # rest"
    if t: "b_tasks s ! i = Uploading (?body @ [CHR 0x0A]) uploadType key"
      and doc: "getValue (b_editor s) = front @ ?body @ CHR 0x0A # rest"
      and nl: "CHR 0x0A \<notin> set fileName"
    using c [OF t doc, of "Inl (Error message)"] nl
    by (simp only: reconciliation_failure if_False)
  from a b c [of r] e show ?thesis by blast
qed

theorem placeholder_newline_remains_witness:
  "getValue (b_editor (step example_plugin
       (the (pasteHandler example_plugin example_paste example_note))
       (BytesRead 0 example_date)))
     = ''top\<newline>![uploading...](aa11.png)\<newline>''
   \<and> b_tasks (step example_plugin
         (the (pasteHandler example_plugin example_paste example_note))
         (BytesRead 0 example_date)) ! 0
       = Uploading ''![uploading...](aa11.png)\<newline>'' ''image'' ''aa11.png''
   \<and> getValue (b_editor (step example_plugin
         (run example_plugin [BytesRead 0 example_date, BytesRead 2 example_date]
            (the (pasteHandler example_plugin example_paste example_note)))
         (UploadSettled 2 (Inl (Error ''boom'')))))
       = ''top\<newline>![uploading...](aa11.png)\<newline>Error uploading file: boom\<newline>\<newline>''
   \<and> getValue (b_editor (step example_plugin
         (run example_plugin [BytesRead 0 example_date, BytesRead 2 example_date]
            (the (pasteHandler example_plugin example_paste example_note)))
         (UploadSettled 0 (Inr ''https://b.s3.x/aa11.png''))))
       = ''top\<newline>![image](https://b.s3.x/aa11.png)\<newline>![uploading...](bb22.png)\<newline>''"
proof -
  let ?s0 = "the (pasteHandler example_plugin example_paste example_note)"
  let ?s2 = "run example_plugin [BytesRead 0 example_date, BytesRead 2 example_date] ?s0"
  let ?a = "\<lparr>file_name = ''a.png'', file_type = ''image/png'', file_bytes = [1]\<rparr>"
  let ?err = "''Error uploading file: boom\<newline>''"
  have len0: "0 < length (b_tasks ?s0)" by code_simp
  have t0: "b_tasks ?s0 ! 0 = Reading ?a ''image''" by code_simp
  have folder0: "getFolderPath (the_settings example_plugin) (the_frontmatter example_plugin)
      (b_localUpload ?s0) example_date = Inr []" by code_simp
  have name: "newFileName (md5_hex example_plugin (file_bytes ?a)) (file_name ?a) = ''aa11.png''"
    by code_simp
  have key: "storage_key [] ''aa11.png'' = ''aa11.png''" by code_simp
  have front0: "take (sel_from (b_editor ?s0)) (getValue (b_editor ?s0)) = ''top\<newline>''"
    by code_simp
  have rest0: "drop (sel_to (b_editor ?s0)) (getValue (b_editor ?s0)) = []" by code_simp
  note A = placeholder_newline_remains [OF len0, where f = ?a and thisType = "''image''"
      and pl = example_plugin and d = example_date and folder' = "[]"]
  from A t0 folder0 have a: "getValue (b_editor (step example_plugin ?s0 (BytesRead 0 example_date)))
       = ''top\<newline>![uploading...](aa11.png)\<newline>''
     \<and> b_tasks (step example_plugin ?s0 (BytesRead 0 example_date)) ! 0
       = Uploading ''![uploading...](aa11.png)\<newline>'' ''image'' ''aa11.png''"
    by (simp only: name key front0 rest0) simp
  have len2: "2 < length (b_tasks ?s2)" by code_simp
  have t2: "b_tasks ?s2 ! 2
      = Uploading ((''![uploading...]('' @ ''bb22.png'' @ '')'') @ [CHR 0x0A]) ''image'' ''bb22.png''"
    by code_simp
  have doc2: "getValue (b_editor ?s2)
      = ''top\<newline>![uploading...](aa11.png)\<newline>'' @ (''![uploading...]('' @ ''bb22.png'' @ '')'')
        @ CHR 0x0A # []"
    by code_simp
  have nl2: "CHR 0x0A \<notin> set ''bb22.png''" by simp
  note B = placeholder_newline_remains [OF len2, where fileName = "''bb22.png''"
      and uploadType = "''image''" and key = "''bb22.png''"
      and front = "''top\<newline>![uploading...](aa11.png)\<newline>''" and rest = "[]"
      and message = "''boom''" and pl = example_plugin]
  from B t2 doc2 nl2 obtain x
    where x: "first_replaced
          (''top\<newline>![uploading...](aa11.png)\<newline>'' @ (''![uploading...]('' @ ''bb22.png'' @ '')''))
          (''![uploading...]('' @ ''bb22.png'' @ '')'') (''Error uploading file: '' @ ''boom'' @ [CHR 0x0A]) x"
      and bx: "getValue (b_editor (step example_plugin ?s2 (UploadSettled 2 (Inl (Error ''boom'')))))
          = x @ CHR 0x0A # []"
    by blast
  have "(case indexOf (''top\<newline>![uploading...](aa11.png)\<newline>'' @ (''![uploading...]('' @ ''bb22.png'' @ '')''))
            (''![uploading...]('' @ ''bb22.png'' @ '')'') of
          None \<Rightarrow> ''top\<newline>![uploading...](aa11.png)\<newline>'' @ (''![uploading...]('' @ ''bb22.png'' @ '')'')
        | Some i \<Rightarrow> take i (''top\<newline>![uploading...](aa11.png)\<newline>'' @ (''![uploading...]('' @ ''bb22.png'' @ '')''))
            @ (''Error uploading file: '' @ ''boom'' @ [CHR 0x0A])
            @ drop (i + length (''![uploading...]('' @ ''bb22.png'' @ '')''))
                (''top\<newline>![uploading...](aa11.png)\<newline>'' @ (''![uploading...]('' @ ''bb22.png'' @ '')'')))
      = ''top\<newline>![uploading...](aa11.png)\<newline>Error uploading file: boom\<newline>''"
    by code_simp
  with first_replaced_unique [OF x]
  have "x = ''top\<newline>![uploading...](aa11.png)\<newline>Error uploading file: boom\<newline>''" by (simp only:)
  with bx have b: "getValue (b_editor (step example_plugin ?s2 (UploadSettled 2 (Inl (Error ''boom'')))))
      = ''top\<newline>![uploading...](aa11.png)\<newline>Error uploading file: boom\<newline>\<newline>''"
    by simp
  have len1: "0 < length (b_tasks ?s2)" by code_simp
  have t1: "b_tasks ?s2 ! 0
      = Uploading ((''![uploading...]('' @ ''aa11.png'' @ '')'') @ [CHR 0x0A]) ''image'' ''aa11.png''"
    by code_simp
  have doc1: "getValue (b_editor ?s2)
      = ''top\<newline>'' @ (''![uploading...]('' @ ''aa11.png'' @ '')'')
        @ CHR 0x0A # ''![uploading...](bb22.png)\<newline>''"
    by code_simp
  have nl1: "CHR 0x0A \<notin> set ''aa11.png''" by simp
  have rec: "reconciliation example_plugin (b_localUpload ?s2) ''image'' (Inr ''https://b.s3.x/aa11.png'')
      = ''![image](https://b.s3.x/aa11.png)''" by code_simp
  note C = placeholder_newline_remains [OF len1, where fileName = "''aa11.png''"
      and uploadType = "''image''" and key = "''aa11.png''"
      and front = "''top\<newline>''" and rest = "''![uploading...](bb22.png)\<newline>''"
      and r = "Inr ''https://b.s3.x/aa11.png''" and pl = example_plugin]
  from C t1 doc1 nl1 obtain y
    where y: "first_replaced (''top\<newline>'' @ (''![uploading...]('' @ ''aa11.png'' @ '')''))
          (''![uploading...]('' @ ''aa11.png'' @ '')'')
          (reconciliation example_plugin (b_localUpload ?s2) ''image'' (Inr ''https://b.s3.x/aa11.png'')) y"
      and byy: "getValue (b_editor (step example_plugin ?s2
            (UploadSettled 0 (Inr ''https://b.s3.x/aa11.png''))))
          = y @ CHR 0x0A # ''![uploading...](bb22.png)\<newline>''"
    by (simp only: if_False) blast
  have "(case indexOf (''top\<newline>'' @ (''![uploading...]('' @ ''aa11.png'' @ '')''))
            (''![uploading...]('' @ ''aa11.png'' @ '')'') of
          None \<Rightarrow> ''top\<newline>'' @ (''![uploading...]('' @ ''aa11.png'' @ '')'')
        | Some i \<Rightarrow> take i (''top\<newline>'' @ (''![uploading...]('' @ ''aa11.png'' @ '')''))
            @ ''![image](https://b.s3.x/aa11.png)''
            @ drop (i + length (''![uploading...]('' @ ''aa11.png'' @ '')''))
                (''top\<newline>'' @ (''![uploading...]('' @ ''aa11.png'' @ '')'')))
      = ''top\<newline>![image](https://b.s3.x/aa11.png)''"
    by code_simp
  with first_replaced_unique [OF y [unfolded rec]]
  have "y = ''top\<newline>![image](https://b.s3.x/aa11.png)''" by (simp only:)
  with byy have c: "getValue (b_editor (step example_plugin ?s2
        (UploadSettled 0 (Inr ''https://b.s3.x/aa11.png''))))
      = ''top\<newline>![image](https://b.s3.x/aa11.png)\<newline>![uploading...](bb22.png)\<newline>''"
    by simp
  from a b c show ?thesis by (simp only: simp_thms)
qed

section \<open>The file classifier\<close>

text \<open>
  Claim C7. The rules of \<^const>\<open>getFileType\<close> are checked in order and the first match wins:
  a media type starting with \<open>video/\<close> with video upload enabled is a video; one starting
  with \<open>audio/\<close> with audio upload enabled is audio; exactly \<open>application/pdf\<close> with PDF
  upload enabled is a pdf; one starting with \<open>image/\<close> is an image whatever the flags;
  anything else is rejected. So \<open>video/mp4\<close> without video upload is rejected, and
  \<open>image/png\<close> is an image whatever the flags are.
\<close>

theorem getFileType_rules:
  "getFileType f v a p =
     (if prefix ''video/'' (file_type f) \<and> v then Some ''video''
      else if prefix ''audio/'' (file_type f) \<and> a then Some ''audio''
      else if file_type f = ''application/pdf'' \<and> p then Some ''pdf''
      else if prefix ''image/'' (file_type f) then Some ''image''
      else None)
   \<and> getFileType (f\<lparr>file_type := ''video/mp4''\<rparr>) False a p = None
   \<and> getFileType (f\<lparr>file_type := ''video/mp4''\<rparr>) True a p = Some ''video''
   \<and> getFileType (f\<lparr>file_type := ''image/png''\<rparr>) v a p = Some ''image''"
  by (simp add: getFileType_def startsWith_iff_prefix Let_def)

section \<open>The embed renderer\<close>

text \<open>
  Claim C8. \<^const>\<open>wrapFileDependingOnType\<close> renders an image as \<open>![image](location)\<close>; a
  video or an audio file as an HTML tag whose \<open>src\<close> is the location, prefixed with
  \<open>file://localBase/\<close> exactly when the local base is not empty; a pdf as an iframe with
  \<open>src\<close> the location, width 100% and height 800; and it throws for every other kind.
\<close>

theorem wrapFileDependingOnType_cases:
  \<open>wrapFileDependingOnType location ''image'' localBase = Inr (''![image]('' @ location @ '')'')
   \<and> wrapFileDependingOnType location ''video'' localBase =
       Inr (''<video src="''
            @ (if localBase = [] then location else ''file://'' @ localBase @ ''/'' @ location)
            @ ''" controls />'')
   \<and> wrapFileDependingOnType location ''audio'' localBase =
       Inr (''<audio src="''
            @ (if localBase = [] then location else ''file://'' @ localBase @ ''/'' @ location)
            @ ''" controls />'')
   \<and> wrapFileDependingOnType location ''pdf'' localBase =
       Inr (''<iframe frameborder="0" border="0" width="100%" height="800" src="''
            @ location @ ''"></iframe>'')
   \<and> (kind \<notin> {''image'', ''video'', ''audio'', ''pdf''} \<longrightarrow>
        wrapFileDependingOnType location kind localBase = Inl (Error ''Unknown file type''))\<close>
  by (simp add: wrapFileDependingOnType_def)

theorem wrapFileDependingOnType_cases_witness:
  \<open>wrapFileDependingOnType ''k/a.zip'' ''zip'' ''media'' = Inl (Error ''Unknown file type'')
   \<and> wrapFileDependingOnType ''k/a.mp4'' ''video'' ''media'' =
       Inr ''<video src="file://media/k/a.mp4" controls />''
   \<and> wrapFileDependingOnType ''https://b.s3.x/a.mp3'' ''audio'' [] =
       Inr ''<audio src="https://b.s3.x/a.mp3" controls />''\<close>
  using wrapFileDependingOnType_cases [where kind = "''zip''" and location = "''k/a.zip''"
      and localBase = "''media''"]
    wrapFileDependingOnType_cases [where kind = "''zip''" and location = "''k/a.mp4''"
      and localBase = "''media''"]
    wrapFileDependingOnType_cases [where kind = "''zip''" and location = "''https://b.s3.x/a.mp3''"
      and localBase = "[]"]
  by simp

end
